theory Spec2Isabelle
  imports Complex_Main "HOL-Library.Multiset"
begin

section \<open>The asset dashboard: data model\<close>

text \<open>
  The development follows \<^verbatim>\<open>src/server/src/components/assets/AssetDashboard.tsx\<close>.
  The interfaces \<^verbatim>\<open>Asset\<close> and \<^verbatim>\<open>ClientMaintenanceSummary\<close> are declared outside the
  component; the records below hold exactly the fields the component reads. A field that
  may be \<^verbatim>\<open>null\<close> or \<^verbatim>\<open>undefined\<close> is an \<open>option\<close>, with \<open>None\<close> for both.
\<close>

subsection \<open>JavaScript numbers\<close>

text \<open>
  A JavaScript number is a double. The maintenance counters are counts, so the numbers of
  this development are the doubles without a fractional part, \<open>Finite n\<close> for the double
  of value \<open>n\<close>, and the three values that are not finite. Negative zero is not told
  apart from zero. A double has 53 significant bits: \<open>round_to_double\<close> rounds an integer
  to the nearest integer that has no more, and to the one with an even last bit when two
  are equally near; \<open>number_of_int\<close> is the double nearest to an integer, infinite from
  \<open>2^1024\<close> on; \<open>js_add\<close> is the operator \<^verbatim>\<open>+\<close> on numbers.
\<close>

datatype js_number = Finite int | PosInfinity | NegInfinity | NaN

fun bit_length :: "nat \<Rightarrow> nat" where
  "bit_length n = (if n = 0 then 0 else Suc (bit_length (n div 2)))"

declare bit_length.simps [simp del]

definition round_to_double :: "int \<Rightarrow> int" where
  "round_to_double n =
     (if \<bar>n\<bar> \<le> 2 ^ 53 then n
      else let e = bit_length (nat \<bar>n\<bar>) - 53;
               q = \<bar>n\<bar> div 2 ^ e;
               r = \<bar>n\<bar> mod 2 ^ e;
               h = 2 ^ (e - 1);
               q' = (if r < h then q else if h < r then q + 1 else if even q then q else q + 1)
           in sgn n * (q' * 2 ^ e))"

definition number_of_int :: "int \<Rightarrow> js_number" where
  "number_of_int n =
     (let r = round_to_double n
      in if 2 ^ 1024 \<le> r then PosInfinity
         else if r \<le> - (2 ^ 1024) then NegInfinity
         else Finite r)"

fun js_add :: "js_number \<Rightarrow> js_number \<Rightarrow> js_number" where
  "js_add NaN y = NaN"
| "js_add x NaN = NaN"
| "js_add PosInfinity NegInfinity = NaN"
| "js_add NegInfinity PosInfinity = NaN"
| "js_add PosInfinity y = PosInfinity"
| "js_add x PosInfinity = PosInfinity"
| "js_add NegInfinity y = NegInfinity"
| "js_add x NegInfinity = NegInfinity"
| "js_add (Finite a) (Finite b) = number_of_int (a + b)"

text \<open>
  A number that is a count, its value, and a list of counts whose exact sum is at most
  \<open>2^53\<close>, the range in which adding doubles does not round.
\<close>

definition is_count :: "js_number \<Rightarrow> bool" where
  "is_count x = (case x of Finite n \<Rightarrow> 0 \<le> n | _ \<Rightarrow> False)"

definition int_of :: "js_number \<Rightarrow> int" where
  "int_of x = (case x of Finite n \<Rightarrow> n | _ \<Rightarrow> 0)"

definition safe_total :: "js_number list \<Rightarrow> bool" where
  "safe_total xs = (list_all is_count xs \<and> sum_list (map int_of xs) \<le> 2 ^ 53)"

subsection \<open>Records\<close>

text \<open>The compliance rate is only displayed, never added.\<close>

record AssetCompanyInfo =
  company_name :: "string option"

record Asset =
  name :: string
  asset_tag :: string
  status :: string
  company_id :: "string option"
  company :: "AssetCompanyInfo option"
  location :: "string option"

record ClientMaintenanceSummary =
  total_schedules :: js_number
  overdue_maintenances :: js_number
  upcoming_maintenances :: js_number
  compliance_rate :: real

text \<open>
  The accumulator of the totals fold, the object literal
  \<^verbatim>\<open>{ totalSchedules: 0, overdueMaintenances: 0, upcomingMaintenances: 0 }\<close>.
\<close>

record MaintenanceStats =
  totalSchedules :: js_number
  overdueMaintenances :: js_number
  upcomingMaintenances :: js_number

text \<open>The three pieces of component state created by \<^verbatim>\<open>useState\<close>.\<close>

type_synonym 'v js_object = "(string \<times> 'v) list"

record DashboardState =
  assets :: "Asset list"
  maintenanceSummaries :: "ClientMaintenanceSummary js_object"
  loading :: bool

section \<open>JavaScript values and objects\<close>

text \<open>
  \<open>truthy\<close> is JavaScript's conversion to a boolean of a value that is a string,
  \<^verbatim>\<open>null\<close> or \<^verbatim>\<open>undefined\<close>: only the empty string and the two absent values are
  falsy.
\<close>

definition truthy :: "string option \<Rightarrow> bool" where
  "truthy v = (case v of None \<Rightarrow> False | Some s \<Rightarrow> s \<noteq> [])"

text \<open>
  A \<^verbatim>\<open>Record<string, T>\<close> is a plain object: the list of its own properties in creation
  order, each key once, and \<^verbatim>\<open>Object.prototype\<close> behind it. \<open>obj_get\<close> reads an own
  property, \<open>obj_set\<close> defines or overwrites one: an existing property keeps its place,
  a new one goes last.
\<close>

fun obj_get :: "'v js_object \<Rightarrow> string \<Rightarrow> 'v option" where
  "obj_get [] k = None"
| "obj_get ((k', v) # rest) k = (if k' = k then Some v else obj_get rest k)"

fun obj_set :: "'v js_object \<Rightarrow> string \<Rightarrow> 'v \<Rightarrow> 'v js_object" where
  "obj_set [] k v = [(k, v)]"
| "obj_set ((k', v') # rest) k v =
     (if k' = k then (k, v) # rest else (k', v') # obj_set rest k v)"

text \<open>
  The members of \<^verbatim>\<open>Object.prototype\<close>, which every plain object inherits. The read
  \<^verbatim>\<open>obj[k]\<close> gives the own property when there is one, else the inherited member when
  \<open>k\<close> names one, else \<^verbatim>\<open>undefined\<close>.
\<close>

definition object_prototype_members :: "string list" where
  "object_prototype_members =
     [''constructor'', ''__proto__'', ''hasOwnProperty'', ''isPrototypeOf'',
      ''propertyIsEnumerable'', ''toLocaleString'', ''toString'', ''valueOf'',
      ''__defineGetter__'', ''__defineSetter__'', ''__lookupGetter__'', ''__lookupSetter__'']"

definition inherits :: "string \<Rightarrow> bool" where
  "inherits k = (k \<in> set object_prototype_members)"

datatype 'v property = Own 'v | Inherited | Undefined

definition obj_lookup :: "'v js_object \<Rightarrow> string \<Rightarrow> 'v property" where
  "obj_lookup obj k =
     (case obj_get obj k of
        Some v \<Rightarrow> Own v
      | None \<Rightarrow> if inherits k then Inherited else Undefined)"

text \<open>
  The assignment \<^verbatim>\<open>obj[k] = v\<close> of a value that is not an object. Under the key
  \<^verbatim>\<open>__proto__\<close> it runs the inherited setter, which ignores such a value, and no
  property is created; under every other key it defines the own property.
\<close>

definition obj_assign :: "'v js_object \<Rightarrow> string \<Rightarrow> 'v \<Rightarrow> 'v js_object" where
  "obj_assign obj k v = (if k = ''__proto__'' then obj else obj_set obj k v)"

text \<open>
  \<^verbatim>\<open>obj[k].push(x)\<close> on an object of arrays. An inherited member has no \<^verbatim>\<open>push\<close> and
  \<^verbatim>\<open>undefined\<close> has no properties: in both cases JavaScript throws a TypeError, which is
  the \<open>None\<close> result here.
\<close>

definition obj_push :: "'a list js_object \<Rightarrow> string \<Rightarrow> 'a \<Rightarrow> 'a list js_object option" where
  "obj_push obj k x =
     (case obj_lookup obj k of
        Own xs \<Rightarrow> Some (obj_set obj k (xs @ [x]))
      | Inherited \<Rightarrow> None
      | Undefined \<Rightarrow> None)"

text \<open>The array stored under a key, or the empty array when the key is missing.\<close>

definition group_of :: "'a list js_object \<Rightarrow> string \<Rightarrow> 'a list" where
  "group_of obj k = (case obj_get obj k of None \<Rightarrow> [] | Some xs \<Rightarrow> xs)"

text \<open>The count stored under a key, or zero when the key is missing.\<close>

definition count_of :: "nat js_object \<Rightarrow> string \<Rightarrow> nat" where
  "count_of obj k = (case obj_get obj k of None \<Rightarrow> 0 | Some n \<Rightarrow> n)"

text \<open>
  \<^verbatim>\<open>Object.keys\<close>, \<^verbatim>\<open>Object.values\<close> and \<^verbatim>\<open>Object.entries\<close> enumerate the keys
  that are array indices first (canonical decimal numerals below \<open>2^32 - 1\<close>), in ascending
  numeric order, and then the other keys in creation order.
\<close>

definition is_digit :: "char \<Rightarrow> bool" where
  "is_digit c = (c \<in> set ''0123456789'')"

definition numeric_value :: "string \<Rightarrow> nat" where
  "numeric_value s = foldl (\<lambda>n c. 10 * n + (of_char c - 48)) 0 s"

definition is_array_index :: "string \<Rightarrow> bool" where
  "is_array_index s =
     (s \<noteq> [] \<and> list_all is_digit s \<and> (s = ''0'' \<or> hd s \<noteq> CHR ''0'')
      \<and> numeric_value s < 2 ^ 32 - 1)"

definition object_entries :: "'v js_object \<Rightarrow> (string \<times> 'v) list" where
  "object_entries obj =
     sort_key (\<lambda>p. numeric_value (fst p)) (filter (\<lambda>p. is_array_index (fst p)) obj)
     @ filter (\<lambda>p. \<not> is_array_index (fst p)) obj"

definition object_keys :: "'v js_object \<Rightarrow> string list" where
  "object_keys obj = map fst (object_entries obj)"

definition object_values :: "'v js_object \<Rightarrow> 'v list" where
  "object_values obj = map snd (object_entries obj)"

section \<open>The Aggregator\<close>

text \<open>
  The callback of the first \<^verbatim>\<open>reduce\<close>: an asset with a falsy \<^verbatim>\<open>company_id\<close> leaves the
  accumulator as it is. Otherwise \<^verbatim>\<open>!acc[asset.company_id]\<close> holds when the read gives
  \<^verbatim>\<open>undefined\<close>, an array or an inherited member being truthy, and then the company's
  array is created; the asset is pushed onto whatever the read gives next. The whole
  reduction throws when a step throws.
\<close>

definition group_step :: "Asset list js_object \<Rightarrow> Asset \<Rightarrow> Asset list js_object option" where
  "group_step acc asset =
     (if \<not> truthy (company_id asset) then Some acc
      else case company_id asset of
        None \<Rightarrow> Some acc
      | Some cid \<Rightarrow>
          (let acc' = (if obj_lookup acc cid = Undefined then obj_set acc cid [] else acc)
           in obj_push acc' cid asset))"

fun group_reduce :: "Asset list js_object \<Rightarrow> Asset list \<Rightarrow> Asset list js_object option" where
  "group_reduce acc [] = Some acc"
| "group_reduce acc (asset # rest) =
     (case group_step acc asset of
        None \<Rightarrow> None
      | Some acc' \<Rightarrow> group_reduce acc' rest)"

definition assetsByCompany :: "Asset list \<Rightarrow> Asset list js_object option" where
  "assetsByCompany as = group_reduce [] as"

text \<open>
  The callback of the second \<^verbatim>\<open>reduce\<close>:
  \<^verbatim>\<open>acc[asset.status] = (acc[asset.status] || 0) + 1\<close>. A value of the accumulator is a
  number or, once an inherited member has been read, a string: a function or an object is
  truthy, and adding 1 to it concatenates its text and \<^verbatim>\<open>1\<close>. A count is a natural
  number: an array has fewer than \<open>2^32\<close> elements, and below \<open>2^53\<close> adding 1 to a
  double is exact. \<open>inherited_text\<close> is the text of an inherited member in the form the
  engines print it.
\<close>

datatype count_value = is_Num: Num (count: nat) | Str string

definition inherited_text :: "string \<Rightarrow> string" where
  "inherited_text k =
     (if k = ''__proto__'' then ''[object Object]''
      else ''function '' @ (if k = ''constructor'' then ''Object'' else k)
             @ ''() { [native code] }'')"

definition count_step :: "count_value js_object \<Rightarrow> Asset \<Rightarrow> count_value js_object" where
  "count_step acc asset =
     obj_assign acc (status asset)
       (case obj_lookup acc (status asset) of
          Undefined \<Rightarrow> Num (0 + 1)
        | Own (Num n) \<Rightarrow> Num ((if n = 0 then 0 else n) + 1)
        | Own (Str t) \<Rightarrow> if t = [] then Num (0 + 1) else Str (t @ ''1'')
        | Inherited \<Rightarrow> Str (inherited_text (status asset) @ ''1''))"

definition assetsByStatus :: "Asset list \<Rightarrow> count_value js_object" where
  "assetsByStatus as = foldl count_step [] as"

definition totalAssets :: "Asset list \<Rightarrow> nat" where
  "totalAssets as = length as"

text \<open>The counting of the second reduction on natural numbers, for the proofs.\<close>

definition tally_step :: "nat js_object \<Rightarrow> Asset \<Rightarrow> nat js_object" where
  "tally_step c asset = obj_set c (status asset) (Suc (count_of c (status asset)))"

definition num_obj :: "nat js_object \<Rightarrow> count_value js_object" where
  "num_obj c = map (\<lambda>p. (fst p, Num (snd p))) c"

section \<open>The Totals Fold\<close>

definition stats_step :: "MaintenanceStats \<Rightarrow> ClientMaintenanceSummary \<Rightarrow> MaintenanceStats" where
  "stats_step acc summary =
     acc\<lparr>totalSchedules := js_add (totalSchedules acc) (total_schedules summary),
         overdueMaintenances := js_add (overdueMaintenances acc) (overdue_maintenances summary),
         upcomingMaintenances :=
           js_add (upcomingMaintenances acc) (upcoming_maintenances summary)\<rparr>"

definition maintenanceStats :: "ClientMaintenanceSummary js_object \<Rightarrow> MaintenanceStats" where
  "maintenanceStats summaries =
     foldl stats_step
       \<lparr>totalSchedules = Finite 0, overdueMaintenances = Finite 0,
        upcomingMaintenances = Finite 0\<rparr>
       (object_values summaries)"

section \<open>The Enrichment Loader\<close>

text \<open>
  \<^verbatim>\<open>getClientMaintenanceSummary\<close> is an external collaborator. Its promise for a company
  either resolves with a summary or rejects with a reason; a promise that never settles is
  outside this model. The loader is given the collaborator as a function.
\<close>

datatype 'e outcome = is_resolved: Resolved ClientMaintenanceSummary | Rejected 'e

text \<open>
  What the loader does to the outside, in the order it does it: the two state setters,
  the calls of the collaborator (the points where the loader suspends), and the log.
\<close>

datatype 'e effect =
    is_SetLoading: SetLoading bool
  | GetClientMaintenanceSummary string
  | is_SetMaintenanceSummaries: SetMaintenanceSummaries "ClientMaintenanceSummary js_object"
  | ConsoleError 'e

text \<open>
  A piece of the asynchronous function: the effects it performed, and either the value it
  completed with (\<open>Inr\<close>) or the exception it threw (\<open>Inl\<close>). \<open>and_then\<close> is
  sequencing, which an exception cuts short; \<open>try_catch\<close> is \<^verbatim>\<open>try { ... } catch\<close>.
\<close>

type_synonym ('e, 'a) action = "'e effect list \<times> ('e + 'a)"

definition emit :: "'e effect \<Rightarrow> ('e, unit) action" where
  "emit ev = ([ev], Inr ())"

definition and_then :: "('e, 'a) action \<Rightarrow> ('a \<Rightarrow> ('e, 'b) action) \<Rightarrow> ('e, 'b) action" where
  "and_then m f =
     (case m of
        (evs, Inl e) \<Rightarrow> (evs, Inl e)
      | (evs, Inr a) \<Rightarrow> (case f a of (evs', r) \<Rightarrow> (evs @ evs', r)))"

definition try_catch :: "('e, 'a) action \<Rightarrow> ('e \<Rightarrow> ('e, 'a) action) \<Rightarrow> ('e, 'a) action" where
  "try_catch m handler =
     (case m of
        (evs, Inl e) \<Rightarrow> (case handler e of (evs', r) \<Rightarrow> (evs @ evs', r))
      | (evs, Inr a) \<Rightarrow> (evs, Inr a))"

text \<open>
  The \<^verbatim>\<open>for\<close> loop over the company identifiers, with the local object \<^verbatim>\<open>summaries\<close>
  as an argument: each company is awaited before the next call is made, and a rejection
  leaves the loop. The identifiers are the own keys of the company groups; the grouping
  never creates a key that names an inherited member, so \<^verbatim>\<open>summaries[companyId] = summary\<close>
  defines an own property.
\<close>

fun fetch_loop ::
  "(string \<Rightarrow> 'e outcome) \<Rightarrow> string list \<Rightarrow> ClientMaintenanceSummary js_object
     \<Rightarrow> ('e, ClientMaintenanceSummary js_object) action" where
  "fetch_loop fetch [] summaries = ([], Inr summaries)"
| "fetch_loop fetch (companyId # rest) summaries =
     (case fetch companyId of
        Rejected e \<Rightarrow> ([GetClientMaintenanceSummary companyId], Inl e)
      | Resolved summary \<Rightarrow>
          (case fetch_loop fetch rest (obj_set summaries companyId summary) of
             (evs, r) \<Rightarrow> (GetClientMaintenanceSummary companyId # evs, r)))"

definition loadMaintenanceSummaries ::
  "(string \<Rightarrow> 'e outcome) \<Rightarrow> Asset list js_object \<Rightarrow> ('e, unit) action" where
  "loadMaintenanceSummaries fetch groups =
     and_then (emit (SetLoading True)) (\<lambda>_.
     and_then
       (try_catch
          (and_then (fetch_loop fetch (object_keys groups) [])
             (\<lambda>summaries. emit (SetMaintenanceSummaries summaries)))
          (\<lambda>error. emit (ConsoleError error))) (\<lambda>_.
     emit (SetLoading False)))"

text \<open>
  The committed component state after an effect, and after a sequence of effects. The
  presentation layer reads the committed state only.
\<close>

fun apply_effect :: "DashboardState \<Rightarrow> 'e effect \<Rightarrow> DashboardState" where
  "apply_effect st (SetLoading b) = st\<lparr>loading := b\<rparr>"
| "apply_effect st (GetClientMaintenanceSummary k) = st"
| "apply_effect st (SetMaintenanceSummaries m) = st\<lparr>maintenanceSummaries := m\<rparr>"
| "apply_effect st (ConsoleError e) = st"

definition run :: "DashboardState \<Rightarrow> 'e effect list \<Rightarrow> DashboardState" where
  "run st evs = foldl apply_effect st evs"

text \<open>
  The component at mount: the state the three \<^verbatim>\<open>useState\<close> calls create. The effect
  of \<^verbatim>\<open>useEffect\<close> runs once on it, with the company groups of the first render.
\<close>

definition initial_state :: "Asset list \<Rightarrow> DashboardState" where
  "initial_state initialAssets =
     \<lparr>assets = initialAssets, maintenanceSummaries = [], loading = False\<rparr>"

section \<open>The recent-assets table\<close>

text \<open>
  The \<^verbatim>\<open>data\<close> property handed to the table, \<^verbatim>\<open>assets.slice(0, 5)\<close>, and the two
  \<^verbatim>\<open>render\<close> callbacks of the column definitions. The table collaborator calls a
  callback with the value of the field that \<^verbatim>\<open>dataIndex\<close> names and with the record.
\<close>

definition table_data :: "Asset list \<Rightarrow> Asset list" where
  "table_data as = take 5 as"

definition or_else :: "string option \<Rightarrow> string \<Rightarrow> string" where
  \<comment> \<open>\<^verbatim>\<open>v || d\<close> for a string, \<^verbatim>\<open>null\<close> or \<^verbatim>\<open>undefined\<close> on the left.\<close>
  "or_else v d = (case v of None \<Rightarrow> d | Some s \<Rightarrow> if s = [] then d else s)"

definition render_company :: "Asset \<Rightarrow> string" where
  "render_company record =
     or_else (case company record of None \<Rightarrow> None | Some c \<Rightarrow> company_name c) ''Unassigned''"

definition render_location :: "string option \<Rightarrow> string" where
  "render_location v = or_else v ''Not specified''"

section \<open>The Aggregator on the heap\<close>

text \<open>
  The two reductions allocate objects and change them in place: each call starts from a
  fresh object literal, and the first creates one array per company and pushes onto it.
  To say what a second render does to the objects of the first, the same two reductions
  are given here on a heap. The heap is a list of cells, an address is a position in it,
  and allocation appends a cell. A groups object holds, under each key, the address of
  an array. The result \<open>None\<close> is the TypeError, or a cell of the wrong kind, which the
  reductions never meet.
\<close>

datatype cell =
    GroupsCell "nat js_object"
  | ArrayCell "Asset list"
  | CountsCell "count_value js_object"

type_synonym heap = "cell list"

definition cell_at :: "heap \<Rightarrow> nat \<Rightarrow> cell option" where
  "cell_at h a = (if a < length h then Some (h ! a) else None)"

definition alloc :: "heap \<Rightarrow> cell \<Rightarrow> nat \<times> heap" where
  "alloc h c = (length h, h @ [c])"

text \<open>
  \<^verbatim>\<open>acc[cid] = []\<close> and \<^verbatim>\<open>acc[cid].push(asset)\<close> on the object at the address
  \<open>acc\<close>.
\<close>

definition create_array_h :: "heap \<Rightarrow> nat \<Rightarrow> string \<Rightarrow> heap option" where
  "create_array_h h acc cid =
     (case cell_at h acc of
        Some (GroupsCell props) \<Rightarrow>
          (case alloc h (ArrayCell []) of
             (a, h') \<Rightarrow> Some (h'[acc := GroupsCell (obj_set props cid a)]))
      | _ \<Rightarrow> None)"

definition push_h :: "heap \<Rightarrow> nat \<Rightarrow> string \<Rightarrow> Asset \<Rightarrow> heap option" where
  "push_h h acc cid asset =
     (case cell_at h acc of
        Some (GroupsCell props) \<Rightarrow>
          (case obj_lookup props cid of
             Own a \<Rightarrow>
               (case cell_at h a of
                  Some (ArrayCell xs) \<Rightarrow> Some (h[a := ArrayCell (xs @ [asset])])
                | _ \<Rightarrow> None)
           | Inherited \<Rightarrow> None
           | Undefined \<Rightarrow> None)
      | _ \<Rightarrow> None)"

text \<open>The callback of the first \<^verbatim>\<open>reduce\<close>, the reduction, and the call from a fresh object.\<close>

definition group_step_h :: "heap \<Rightarrow> nat \<Rightarrow> Asset \<Rightarrow> heap option" where
  "group_step_h h acc asset =
     (if \<not> truthy (company_id asset) then Some h
      else case company_id asset of
        None \<Rightarrow> Some h
      | Some cid \<Rightarrow>
          (case cell_at h acc of
             Some (GroupsCell props) \<Rightarrow>
               (case (if obj_lookup props cid = Undefined then create_array_h h acc cid
                      else Some h) of
                  None \<Rightarrow> None
                | Some h' \<Rightarrow> push_h h' acc cid asset)
           | _ \<Rightarrow> None))"

fun group_reduce_h :: "heap \<Rightarrow> nat \<Rightarrow> Asset list \<Rightarrow> heap option" where
  "group_reduce_h h acc [] = Some h"
| "group_reduce_h h acc (asset # rest) =
     (case group_step_h h acc asset of
        None \<Rightarrow> None
      | Some h' \<Rightarrow> group_reduce_h h' acc rest)"

definition assetsByCompany_h :: "heap \<Rightarrow> Asset list \<Rightarrow> (nat \<times> heap) option" where
  "assetsByCompany_h h as =
     (case alloc h (GroupsCell []) of
        (acc, h') \<Rightarrow> map_option (Pair acc) (group_reduce_h h' acc as))"

text \<open>
  The callback of the second \<^verbatim>\<open>reduce\<close>: the values it stores are not objects, so it
  changes the cell of the accumulator only.
\<close>

definition count_step_h :: "heap \<Rightarrow> nat \<Rightarrow> Asset \<Rightarrow> heap option" where
  "count_step_h h acc asset =
     (case cell_at h acc of
        Some (CountsCell c) \<Rightarrow> Some (h[acc := CountsCell (count_step c asset)])
      | _ \<Rightarrow> None)"

fun count_reduce_h :: "heap \<Rightarrow> nat \<Rightarrow> Asset list \<Rightarrow> heap option" where
  "count_reduce_h h acc [] = Some h"
| "count_reduce_h h acc (asset # rest) =
     (case count_step_h h acc asset of
        None \<Rightarrow> None
      | Some h' \<Rightarrow> count_reduce_h h' acc rest)"

definition assetsByStatus_h :: "heap \<Rightarrow> Asset list \<Rightarrow> (nat \<times> heap) option" where
  "assetsByStatus_h h as =
     (case alloc h (CountsCell []) of
        (acc, h') \<Rightarrow> map_option (Pair acc) (count_reduce_h h' acc as))"

text \<open>One render: both reductions, one after the other, on the heap as it is.\<close>

definition Aggregator :: "heap \<Rightarrow> Asset list \<Rightarrow> (nat \<times> nat \<times> heap) option" where
  "Aggregator h as =
     (case assetsByCompany_h h as of
        None \<Rightarrow> None
      | Some (groups, h1) \<Rightarrow>
          (case assetsByStatus_h h1 as of
             None \<Rightarrow> None
           | Some (counts, h2) \<Rightarrow> Some (groups, counts, h2)))"

text \<open>What the presentation layer reads at an address: the groups with their arrays, the counts.\<close>

definition array_at :: "heap \<Rightarrow> nat \<Rightarrow> Asset list" where
  "array_at h a = (case cell_at h a of Some (ArrayCell xs) \<Rightarrow> xs | _ \<Rightarrow> [])"

definition groups_at :: "heap \<Rightarrow> nat \<Rightarrow> Asset list js_object" where
  "groups_at h r =
     (case cell_at h r of
        Some (GroupsCell props) \<Rightarrow> map (\<lambda>p. (fst p, array_at h (snd p))) props
      | _ \<Rightarrow> [])"

definition counts_at :: "heap \<Rightarrow> nat \<Rightarrow> count_value js_object" where
  "counts_at h r = (case cell_at h r of Some (CountsCell c) \<Rightarrow> c | _ \<Rightarrow> [])"

text \<open>
  For the proofs: the heap that holds, behind \<open>base\<close>, a groups object and its arrays in
  creation order, and the position of a key among the own properties.
\<close>

fun props_of :: "nat \<Rightarrow> 'v js_object \<Rightarrow> nat js_object" where
  "props_of b [] = []"
| "props_of b ((k, v) # g) = (k, b) # props_of (Suc b) g"

definition heap_of :: "heap \<Rightarrow> Asset list js_object \<Rightarrow> heap" where
  "heap_of base g =
     base @ GroupsCell (props_of (Suc (length base)) g) # map (\<lambda>p. ArrayCell (snd p)) g"

fun key_index :: "'v js_object \<Rightarrow> string \<Rightarrow> nat option" where
  "key_index [] k = None"
| "key_index ((k', v) # rest) k = (if k' = k then Some 0 else map_option Suc (key_index rest k))"

section \<open>Concrete inputs\<close>

text \<open>Assets for the concrete checks: a name, a company identifier and a status.\<close>

definition asset_of :: "string \<Rightarrow> string option \<Rightarrow> string \<Rightarrow> Asset" where
  "asset_of n cid s =
     \<lparr>name = n, asset_tag = n, status = s, company_id = cid, company = None, location = None\<rparr>"

text \<open>
  The collaborator of the concrete checks: company \<^verbatim>\<open>A\<close> resolves with 5 schedules,
  1 overdue and 2 upcoming, company \<^verbatim>\<open>C\<close> with 3, 0 and 1, and every other company
  rejects.
\<close>

definition fetch_B_rejects :: "string \<Rightarrow> string outcome" where
  "fetch_B_rejects companyId =
     (if companyId = ''A'' then
        Resolved \<lparr>total_schedules = Finite 5, overdue_maintenances = Finite 1,
                  upcoming_maintenances = Finite 2, compliance_rate = 100\<rparr>
      else if companyId = ''C'' then
        Resolved \<lparr>total_schedules = Finite 3, overdue_maintenances = Finite 0,
                  upcoming_maintenances = Finite 1, compliance_rate = 100\<rparr>
      else Rejected ''rejected'')"

definition assets_ABC :: "Asset list" where
  "assets_ABC =
     [asset_of ''a'' (Some ''A'') ''active'', asset_of ''b'' (Some ''B'') ''active'',
      asset_of ''c'' (Some ''C'') ''active'']"

definition assets_AC :: "Asset list" where
  "assets_AC = [asset_of ''a'' (Some ''A'') ''active'', asset_of ''c'' (Some ''C'') ''active'']"

text \<open>The company groups of the two asset lists.\<close>

definition groups_ABC :: "Asset list js_object" where
  "groups_ABC =
     [(''A'', [asset_of ''a'' (Some ''A'') ''active'']),
      (''B'', [asset_of ''b'' (Some ''B'') ''active'']),
      (''C'', [asset_of ''c'' (Some ''C'') ''active''])]"

definition groups_AC :: "Asset list js_object" where
  "groups_AC =
     [(''A'', [asset_of ''a'' (Some ''A'') ''active'']),
      (''C'', [asset_of ''c'' (Some ''C'') ''active''])]"

text \<open>A summary with a given count of schedules and nothing overdue or upcoming.\<close>

definition summary_with :: "int \<Rightarrow> ClientMaintenanceSummary" where
  "summary_with n =
     \<lparr>total_schedules = Finite n, overdue_maintenances = Finite 0,
      upcoming_maintenances = Finite 0, compliance_rate = 100\<rparr>"

section \<open>Properties of objects\<close>

lemma obj_get_obj_set: "obj_get (obj_set obj k v) k' = (if k' = k then Some v else obj_get obj k')"
  by (induction obj) auto

lemma obj_get_None_iff: "obj_get obj k = None \<longleftrightarrow> k \<notin> set (map fst obj)"
  by (induction obj) (auto split: if_splits)

lemma keys_obj_set:
  "map fst (obj_set obj k v) = (if k \<in> set (map fst obj) then map fst obj else map fst obj @ [k])"
  by (induction obj) (auto split: if_splits)

lemma distinct_obj_set: "distinct (map fst obj) \<Longrightarrow> distinct (map fst (obj_set obj k v))"
  by (simp add: keys_obj_set)

lemma obj_set_twice: "obj_set (obj_set obj k v) k w = obj_set obj k w"
  by (induction obj) auto

lemma mset_object_entries: "mset (object_entries obj) = mset obj"
  by (simp add: object_entries_def)

lemma mset_object_values: "mset (object_values obj) = mset (map snd obj)"
  unfolding object_values_def by (metis mset_map mset_object_entries)

lemma mset_object_keys: "mset (object_keys obj) = mset (map fst obj)"
  unfolding object_keys_def by (metis mset_map mset_object_entries)

lemma set_object_keys: "set (object_keys obj) = set (map fst obj)"
  by (metis mset_object_keys set_mset_mset)

lemma mset_concat_cong: "mset xss = mset yss \<Longrightarrow> mset (concat xss) = mset (concat yss)"
  by (metis mset_concat mset_map sum_mset_sum_list)

lemma sum_list_cong_nat: "mset xs = mset ys \<Longrightarrow> sum_list xs = (sum_list ys :: nat)"
  by (metis sum_mset_sum_list)

lemma sum_list_cong_int: "mset xs = mset ys \<Longrightarrow> sum_list xs = (sum_list ys :: int)"
  by (metis sum_mset_sum_list)

section \<open>Properties of the Aggregator\<close>

lemma truthy_Some: "truthy v \<longleftrightarrow> (\<exists>s. v = Some s \<and> s \<noteq> [])"
  by (cases v) (auto simp: truthy_def)

lemma inherits_nonempty: "inherits k \<Longrightarrow> k \<noteq> []"
  by (auto simp: inherits_def object_prototype_members_def)

lemma group_step_skip: "\<not> truthy (company_id a) \<Longrightarrow> group_step acc a = Some acc"
  by (simp add: group_step_def)

lemma group_step_push:
  "company_id a = Some cid \<Longrightarrow> cid \<noteq> [] \<Longrightarrow>
   group_step acc a =
     (if obj_get acc cid = None \<and> inherits cid then None
      else Some (obj_set acc cid (group_of acc cid @ [a])))"
  by (auto simp: group_step_def truthy_def obj_push_def obj_lookup_def group_of_def
      obj_get_obj_set obj_set_twice split: option.splits)

lemma group_step_Some:
  assumes "group_step acc a = Some g" "truthy (company_id a)"
  obtains cid where "company_id a = Some cid" "cid \<noteq> []"
    "\<not> (obj_get acc cid = None \<and> inherits cid)"
    "g = obj_set acc cid (group_of acc cid @ [a])"
proof -
  from assms(2) obtain cid where c: "company_id a = Some cid" "cid \<noteq> []"
    by (auto simp: truthy_Some)
  from assms(1) group_step_push [OF c, of acc]
  have "\<not> (obj_get acc cid = None \<and> inherits cid)"
    "g = obj_set acc cid (group_of acc cid @ [a])"
    by (auto split: if_splits)
  with c that show thesis by blast
qed

lemma group_reduce_Cons_Some:
  assumes "group_reduce acc (a # as) = Some g"
  obtains acc' where "group_step acc a = Some acc'" "group_reduce acc' as = Some g"
  using assms by (cases "group_step acc a") auto

lemma group_of_obj_set: "group_of (obj_set obj k v) k' = (if k' = k then v else group_of obj k')"
  by (simp add: group_of_def obj_get_obj_set)

lemma group_reduce_get:
  "group_reduce acc as = Some g \<Longrightarrow>
   obj_get g k =
     (if k \<noteq> [] \<and> (\<exists>a \<in> set as. company_id a = Some k)
      then Some (group_of acc k @ filter (\<lambda>a. company_id a = Some k) as)
      else obj_get acc k)"
proof (induction as arbitrary: acc)
  case Nil
  then show ?case by simp
next
  case (Cons a as)
  from Cons.prems obtain acc' where
    s: "group_step acc a = Some acc'" and r: "group_reduce acc' as = Some g"
    by (rule group_reduce_Cons_Some)
  show ?case
  proof (cases "truthy (company_id a)")
    case False
    with s have "acc' = acc"
      by (simp add: group_step_skip)
    with Cons.IH [OF r] False show ?thesis
      by (auto simp: truthy_def)
  next
    case True
    with s obtain cid where cid: "company_id a = Some cid" "cid \<noteq> []"
      and acc': "acc' = obj_set acc cid (group_of acc cid @ [a])"
      by (rule group_step_Some)
    from Cons.IH [OF r] cid show ?thesis
      unfolding acc'
      by (auto simp: group_of_obj_set obj_get_obj_set group_of_def split: option.splits)
  qed
qed

lemma group_reduce_distinct:
  "group_reduce acc as = Some g \<Longrightarrow> distinct (map fst acc) \<Longrightarrow> distinct (map fst g)"
proof (induction as arbitrary: acc)
  case Nil
  then show ?case by simp
next
  case (Cons a as)
  from Cons.prems(1) obtain acc' where
    s: "group_step acc a = Some acc'" and r: "group_reduce acc' as = Some g"
    by (rule group_reduce_Cons_Some)
  have "distinct (map fst acc')"
  proof (cases "truthy (company_id a)")
    case False
    with s Cons.prems(2) show ?thesis
      by (simp add: group_step_skip)
  next
    case True
    with s obtain cid where "acc' = obj_set acc cid (group_of acc cid @ [a])"
      by (rule group_step_Some)
    with Cons.prems(2) show ?thesis
      by (simp add: distinct_obj_set)
  qed
  with Cons.IH [OF r] show ?case .
qed

lemma mset_concat_obj_set:
  "mset (concat (map snd (obj_set obj k (group_of obj k @ [x]))))
     = mset (concat (map snd obj)) + {#x#}"
  by (induction obj) (auto simp: group_of_def)

lemma group_reduce_mset:
  "group_reduce acc as = Some g \<Longrightarrow>
   mset (concat (map snd g))
     = mset (concat (map snd acc)) + mset (filter (\<lambda>a. truthy (company_id a)) as)"
proof (induction as arbitrary: acc)
  case Nil
  then show ?case by simp
next
  case (Cons a as)
  from Cons.prems obtain acc' where
    s: "group_step acc a = Some acc'" and r: "group_reduce acc' as = Some g"
    by (rule group_reduce_Cons_Some)
  show ?case
  proof (cases "truthy (company_id a)")
    case False
    with s have "acc' = acc"
      by (simp add: group_step_skip)
    with Cons.IH [OF r] False show ?thesis by simp
  next
    case True
    with s obtain cid where "acc' = obj_set acc cid (group_of acc cid @ [a])"
      by (rule group_step_Some)
    with Cons.IH [OF r] True show ?thesis
      by (simp add: mset_concat_obj_set)
  qed
qed

text \<open>No own property of the accumulator is named like an inherited member.\<close>

lemma group_step_keys:
  "group_step acc a = Some g \<Longrightarrow> \<forall>k \<in> set (map fst acc). \<not> inherits k \<Longrightarrow>
   \<forall>k \<in> set (map fst g). \<not> inherits k"
proof (cases "truthy (company_id a)")
  case False
  assume "group_step acc a = Some g" "\<forall>k \<in> set (map fst acc). \<not> inherits k"
  with False show ?thesis by (simp add: group_step_skip)
next
  case True
  assume s: "group_step acc a = Some g" and i: "\<forall>k \<in> set (map fst acc). \<not> inherits k"
  from s True obtain cid where
    n: "\<not> (obj_get acc cid = None \<and> inherits cid)"
    and g: "g = obj_set acc cid (group_of acc cid @ [a])"
    by (rule group_step_Some)
  from n i have "\<not> inherits cid"
    by (auto simp: obj_get_None_iff)
  with i show ?thesis
    unfolding g by (auto simp: keys_obj_set)
qed

lemma group_reduce_keys:
  "group_reduce acc as = Some g \<Longrightarrow> \<forall>k \<in> set (map fst acc). \<not> inherits k \<Longrightarrow>
   \<forall>k \<in> set (map fst g). \<not> inherits k"
proof (induction as arbitrary: acc)
  case Nil
  then show ?case by simp
next
  case (Cons a as)
  from Cons.prems(1) obtain acc' where
    s: "group_step acc a = Some acc'" and r: "group_reduce acc' as = Some g"
    by (rule group_reduce_Cons_Some)
  from group_step_keys [OF s Cons.prems(2)] Cons.IH [OF r] show ?case
    by blast
qed

lemma group_reduce_total:
  "\<forall>a \<in> set as. \<forall>k. company_id a = Some k \<longrightarrow> \<not> inherits k \<Longrightarrow>
   \<exists>g. group_reduce acc as = Some g"
proof (induction as arbitrary: acc)
  case Nil
  show ?case by simp
next
  case (Cons a as)
  have "\<exists>acc'. group_step acc a = Some acc'"
  proof (cases "truthy (company_id a)")
    case False
    then show ?thesis by (simp add: group_step_skip)
  next
    case True
    then obtain cid where cid: "company_id a = Some cid" "cid \<noteq> []"
      by (auto simp: truthy_Some)
    with Cons.prems have "\<not> inherits cid" by simp
    with group_step_push [OF cid, of acc] show ?thesis by simp
  qed
  then obtain acc' where "group_step acc a = Some acc'" by blast
  moreover from Cons.prems have "\<exists>g. group_reduce acc' as = Some g"
    by (intro Cons.IH) simp
  ultimately show ?case by simp
qed

lemma group_reduce_throws:
  "\<exists>a \<in> set as. \<exists>k. company_id a = Some k \<and> inherits k \<Longrightarrow>
   \<forall>k \<in> set (map fst acc). \<not> inherits k \<Longrightarrow> group_reduce acc as = None"
proof (induction as arbitrary: acc)
  case Nil
  then show ?case by simp
next
  case (Cons a as)
  show ?case
  proof (cases "group_step acc a")
    case None
    then show ?thesis by simp
  next
    case (Some acc')
    have "\<not> (\<exists>k. company_id a = Some k \<and> inherits k)"
    proof
      assume "\<exists>k. company_id a = Some k \<and> inherits k"
      then obtain k where k: "company_id a = Some k" "inherits k"
        by blast
      then have "k \<noteq> []" by (simp add: inherits_nonempty)
      moreover from k Cons.prems(2) have "obj_get acc k = None"
        by (auto simp: obj_get_None_iff)
      ultimately have "group_step acc a = None"
        using k by (simp add: group_step_push)
      with Some show False by simp
    qed
    with Cons.prems(1) have "\<exists>a \<in> set as. \<exists>k. company_id a = Some k \<and> inherits k"
      by auto
    moreover have "\<forall>k \<in> set (map fst acc'). \<not> inherits k"
      using Some Cons.prems(2) by (rule group_step_keys)
    ultimately have "group_reduce acc' as = None"
      by (rule Cons.IH)
    with Some show ?thesis by simp
  qed
qed

lemma plain_group_keys:
  "assetsByCompany initialAssets = Some groups \<Longrightarrow> \<forall>k \<in> set (object_keys groups). \<not> inherits k"
proof -
  assume "assetsByCompany initialAssets = Some groups"
  then have "\<forall>k \<in> set (map fst groups). \<not> inherits k"
    using group_reduce_keys [of "[]" initialAssets groups] by (simp add: assetsByCompany_def)
  then show ?thesis
    by (simp only: set_object_keys)
qed

lemma distinct_group_keys:
  "assetsByCompany initialAssets = Some groups \<Longrightarrow> distinct (object_keys groups)"
proof -
  assume "assetsByCompany initialAssets = Some groups"
  then have "distinct (map fst groups)"
    using group_reduce_distinct [of "[]" initialAssets groups] by (simp add: assetsByCompany_def)
  then show ?thesis
    by (metis mset_object_keys mset_eq_imp_distinct_iff)
qed

lemma concat_values_notin:
  "mset (concat (object_values groups)) = mset (filter P as) \<Longrightarrow> \<not> P x \<Longrightarrow>
   x \<notin> set (concat (object_values groups))"
proof
  assume "mset (concat (object_values groups)) = mset (filter P as)" "\<not> P x"
    "x \<in> set (concat (object_values groups))"
  then have "x \<in> set (filter P as)"
    by (metis set_mset_mset)
  with \<open>\<not> P x\<close> show False by simp
qed

lemma obj_get_num_obj: "obj_get (num_obj c) k = map_option Num (obj_get c k)"
  by (induction c) (auto simp: num_obj_def)

lemma obj_set_num_obj: "obj_set (num_obj c) k (Num v) = num_obj (obj_set c k v)"
  by (induction c) (auto simp: num_obj_def)

lemma not_inherits_proto: "\<not> inherits k \<Longrightarrow> k \<noteq> ''__proto__''"
  by (auto simp: inherits_def object_prototype_members_def)

lemma count_step_num_obj:
  "\<not> inherits (status a) \<Longrightarrow> count_step (num_obj c) a = num_obj (tally_step c a)"
  by (cases "obj_get c (status a)")
     (simp_all add: count_step_def tally_step_def obj_lookup_def obj_get_num_obj obj_assign_def
        not_inherits_proto count_of_def obj_set_num_obj)

lemma foldl_count_step_num_obj:
  "\<forall>a \<in> set as. \<not> inherits (status a) \<Longrightarrow>
   foldl count_step (num_obj c) as = num_obj (foldl tally_step c as)"
  by (induction as arbitrary: c) (simp_all add: count_step_num_obj)

lemma assetsByStatus_num_obj:
  "\<forall>a \<in> set as. \<not> inherits (status a) \<Longrightarrow>
   assetsByStatus as = num_obj (foldl tally_step [] as)"
  using foldl_count_step_num_obj [of as "[]"] by (simp add: assetsByStatus_def num_obj_def)

lemma sum_list_obj_set_count:
  "sum_list (map snd (obj_set obj k (Suc (count_of obj k)))) = Suc (sum_list (map snd obj))"
  by (induction obj) (auto simp: count_of_def)

lemma count_of_obj_set: "count_of (obj_set obj k v) k' = (if k' = k then v else count_of obj k')"
  by (simp add: count_of_def obj_get_obj_set)

lemma obj_get_tally_step:
  "obj_get (tally_step c a) s = (if s = status a then Some (Suc (count_of c s)) else obj_get c s)"
  by (simp add: tally_step_def obj_get_obj_set)

lemma count_of_tally_step:
  "count_of (tally_step c a) s = (if s = status a then Suc (count_of c s) else count_of c s)"
  by (simp add: tally_step_def count_of_obj_set)

lemma sum_list_tally_step:
  "sum_list (map snd (tally_step c a)) = Suc (sum_list (map snd c))"
  by (simp add: tally_step_def sum_list_obj_set_count)

lemma foldl_tally_step_sum:
  "sum_list (map snd (foldl tally_step c as)) = sum_list (map snd c) + length as"
  by (induction as arbitrary: c) (simp_all add: sum_list_tally_step)

lemma foldl_tally_step_get:
  "obj_get (foldl tally_step c as) s =
     (if \<exists>a \<in> set as. status a = s
      then Some (count_of c s + length (filter (\<lambda>a. status a = s) as))
      else obj_get c s)"
proof (induction as arbitrary: c)
  case Nil
  show ?case by simp
next
  case (Cons a as)
  have "obj_get (foldl tally_step c (a # as)) s
          = obj_get (foldl tally_step (tally_step c a) as) s"
    by simp
  also have "\<dots> =
     (if \<exists>a \<in> set as. status a = s
      then Some (count_of (tally_step c a) s + length (filter (\<lambda>a. status a = s) as))
      else obj_get (tally_step c a) s)"
    by (rule Cons.IH)
  finally show ?case
    by (auto simp: obj_get_tally_step count_of_tally_step)
qed

lemma values_num_obj:
  "list_all is_Num (map snd (num_obj c)) \<and> map count (map snd (num_obj c)) = map snd c"
  by (induction c) (simp_all add: num_obj_def)

lemma list_all_mset: "mset xs = mset ys \<Longrightarrow> list_all P xs = list_all P ys"
  by (metis list_all_iff set_mset_mset)

section \<open>Properties of the Totals Fold\<close>

lemma bit_length_0: "bit_length 0 = 0"
  by (simp add: bit_length.simps)

lemma bit_length_pos: "0 < n \<Longrightarrow> bit_length n = Suc (bit_length (n div 2))"
  by (subst bit_length.simps) simp

lemmas number_eval = number_of_int_def round_to_double_def Let_def bit_length_0 bit_length_pos

lemma js_add_exact:
  "\<bar>a + b\<bar> \<le> 2 ^ 53 \<Longrightarrow> js_add (Finite a) (Finite b) = Finite (a + b)"
proof -
  assume a: "\<bar>a + b\<bar> \<le> 2 ^ 53"
  have "(2::int) ^ 53 < 2 ^ 1024"
    by (rule power_strict_increasing) simp_all
  with a have "a + b < 2 ^ 1024" "- (2 ^ 1024) < a + b"
    by linarith+
  with a show ?thesis
    by (simp add: number_of_int_def round_to_double_def)
qed

lemma is_count_Finite: "is_count x \<Longrightarrow> x = Finite (int_of x) \<and> 0 \<le> int_of x"
  by (cases x) (simp_all add: is_count_def int_of_def)

lemma sum_counts_nonneg: "list_all is_count xs \<Longrightarrow> 0 \<le> sum_list (map int_of xs)"
  by (induction xs) (auto dest: is_count_Finite)

lemma foldl_js_add_safe:
  "0 \<le> a \<Longrightarrow> list_all is_count xs \<Longrightarrow> a + sum_list (map int_of xs) \<le> 2 ^ 53 \<Longrightarrow>
   foldl js_add (Finite a) xs = Finite (a + sum_list (map int_of xs))"
proof (induction xs arbitrary: a)
  case Nil
  show ?case by simp
next
  case (Cons x xs)
  from Cons.prems(2) have x: "x = Finite (int_of x)" "0 \<le> int_of x" and xs: "list_all is_count xs"
    by (auto dest: is_count_Finite)
  from xs have r: "0 \<le> sum_list (map int_of xs)"
    by (rule sum_counts_nonneg)
  with Cons.prems(1,3) x(2) have "\<bar>a + int_of x\<bar> \<le> 2 ^ 53"
    by simp
  then have "js_add (Finite a) x = Finite (a + int_of x)"
    using js_add_exact [of a "int_of x"] x(1) by simp
  moreover have "foldl js_add (Finite (a + int_of x)) xs
                   = Finite (a + int_of x + sum_list (map int_of xs))"
    using Cons.prems(1,3) x(2) xs by (intro Cons.IH) simp_all
  ultimately show ?case
    by (simp add: add.assoc)
qed

lemma foldl_js_add_safe_total:
  "safe_total xs \<Longrightarrow> foldl js_add (Finite 0) xs = Finite (sum_list (map int_of xs))"
  using foldl_js_add_safe [of 0 xs] by (simp add: safe_total_def)

lemma safe_total_mset: "mset xs = mset ys \<Longrightarrow> safe_total xs = safe_total ys"
proof -
  assume p: "mset xs = mset ys"
  then have "mset (map int_of xs) = mset (map int_of ys)"
    by (metis mset_map)
  then have "sum_list (map int_of xs) = sum_list (map int_of ys)"
    by (rule sum_list_cong_int)
  with list_all_mset [OF p, of is_count] show ?thesis
    by (simp add: safe_total_def)
qed

lemma foldl_stats_step:
  "foldl stats_step acc vs =
     \<lparr>totalSchedules = foldl js_add (totalSchedules acc) (map total_schedules vs),
      overdueMaintenances = foldl js_add (overdueMaintenances acc) (map overdue_maintenances vs),
      upcomingMaintenances =
        foldl js_add (upcomingMaintenances acc) (map upcoming_maintenances vs)\<rparr>"
  by (induction vs arbitrary: acc) (simp_all add: stats_step_def)

lemma maintenanceStats_folds:
  "maintenanceStats summaries =
     \<lparr>totalSchedules = foldl js_add (Finite 0) (map total_schedules (object_values summaries)),
      overdueMaintenances =
        foldl js_add (Finite 0) (map overdue_maintenances (object_values summaries)),
      upcomingMaintenances =
        foldl js_add (Finite 0) (map upcoming_maintenances (object_values summaries))\<rparr>"
  by (simp add: maintenanceStats_def foldl_stats_step)

lemma fold_field_safe:
  fixes f :: "ClientMaintenanceSummary \<Rightarrow> js_number"
  assumes "safe_total (map (\<lambda>p. f (snd p)) summaries)"
  shows "foldl js_add (Finite 0) (map f (object_values summaries))
           = Finite (sum_list (map (\<lambda>p. int_of (f (snd p))) summaries))"
proof -
  have p: "mset (map f (object_values summaries)) = mset (map (\<lambda>p. f (snd p)) summaries)"
    by (simp add: mset_object_values multiset.map_comp comp_def)
  then have "safe_total (map f (object_values summaries))"
    using assms safe_total_mset by blast
  then have "foldl js_add (Finite 0) (map f (object_values summaries))
               = Finite (sum_list (map int_of (map f (object_values summaries))))"
    by (rule foldl_js_add_safe_total)
  moreover from p have "mset (map int_of (map f (object_values summaries)))
                          = mset (map int_of (map (\<lambda>p. f (snd p)) summaries))"
    by (metis mset_map)
  then have "sum_list (map int_of (map f (object_values summaries)))
               = sum_list (map int_of (map (\<lambda>p. f (snd p)) summaries))"
    by (rule sum_list_cong_int)
  ultimately show ?thesis
    by (simp add: comp_def)
qed

lemma sum_field_mset:
  fixes g :: "string \<times> ClientMaintenanceSummary \<Rightarrow> int"
  shows "mset xs = mset ys \<Longrightarrow> sum_list (map g xs) = sum_list (map g ys)"
  by (rule sum_list_cong_int) (metis mset_map)

lemma safe_field_mset:
  fixes g :: "string \<times> ClientMaintenanceSummary \<Rightarrow> js_number"
  shows "mset xs = mset ys \<Longrightarrow> safe_total (map g xs) \<Longrightarrow> safe_total (map g ys)"
  using safe_total_mset [of "map g xs" "map g ys"] by (metis mset_map)

section \<open>Properties of the Aggregator on the heap\<close>

lemma key_index_Some:
  "key_index g k = Some i \<Longrightarrow>
   i < length g \<and> fst (g ! i) = k \<and> obj_get g k = Some (snd (g ! i))
   \<and> obj_set g k v = g[i := (k, v)]"
proof (induction g arbitrary: i)
  case Nil
  then show ?case by simp
next
  case (Cons p g)
  obtain k' v' where p: "p = (k', v')" by (cases p)
  show ?case
  proof (cases "k' = k")
    case True
    with Cons.prems p show ?thesis by simp
  next
    case False
    with Cons.prems p obtain j where j: "key_index g k = Some j" "i = Suc j"
      by auto
    from Cons.IH [OF j(1)] False p j(2) show ?thesis by simp
  qed
qed

lemma key_index_None: "key_index g k = None \<longleftrightarrow> obj_get g k = None"
  by (induction g) (auto split: if_splits)

lemma obj_set_absent: "obj_get g k = None \<Longrightarrow> obj_set g k v = g @ [(k, v)]"
  by (induction g) (auto split: if_splits)

lemma length_props_of: "length (props_of b g) = length g"
  by (induction b g rule: props_of.induct) simp_all

lemma obj_get_props_of:
  "obj_get (props_of b g) k = map_option (\<lambda>i. b + i) (key_index g k)"
  by (induction b g rule: props_of.induct) (auto simp: option.map_comp comp_def)

lemma props_of_append: "props_of b (g @ [(k, v)]) = props_of b g @ [(k, b + length g)]"
  by (induction b g rule: props_of.induct) simp_all

lemma props_of_update:
  "i < length g \<Longrightarrow> props_of b (g[i := (fst (g ! i), ys)]) = props_of b g"
proof (induction b g arbitrary: i rule: props_of.induct)
  case (1 b)
  then show ?case by simp
next
  case (2 b k v g)
  then show ?case by (cases i) simp_all
qed

lemma read_back_props_of:
  "\<forall>i < length g. f (b + i) = snd (g ! i) \<Longrightarrow>
   map (\<lambda>p. (fst p, f (snd p))) (props_of b g) = g"
proof (induction b g rule: props_of.induct)
  case (1 b)
  show ?case by simp
next
  case (2 b k v g)
  from "2.prems" have "f b = v"
    by fastforce
  moreover have "\<forall>i < length g. f (Suc b + i) = snd (g ! i)"
  proof (intro allI impI)
    fix i assume "i < length g"
    with "2.prems" have "f (b + Suc i) = snd (((k, v) # g) ! Suc i)"
      by (metis length_Cons Suc_less_eq)
    then show "f (Suc b + i) = snd (g ! i)" by simp
  qed
  then have "map (\<lambda>p. (fst p, f (snd p))) (props_of (Suc b) g) = g"
    by (rule "2.IH")
  ultimately show ?case by simp
qed

lemma length_heap_of: "length (heap_of base g) = Suc (length base + length g)"
  by (simp add: heap_of_def)

lemma cell_at_groups:
  "cell_at (heap_of base g @ ext) (length base)
     = Some (GroupsCell (props_of (Suc (length base)) g))"
  by (simp add: cell_at_def heap_of_def nth_append)

lemma cell_at_array:
  "i < length g \<Longrightarrow>
   cell_at (heap_of base g @ ext) (Suc (length base + i)) = Some (ArrayCell (snd (g ! i)))"
  by (simp add: cell_at_def heap_of_def nth_append)

lemma update_array:
  "i < length g \<Longrightarrow>
   (heap_of base g)[Suc (length base + i) := ArrayCell ys]
     = heap_of base (g[i := (fst (g ! i), ys)])"
  by (simp add: heap_of_def list_update_append map_update props_of_update)

lemma create_array_sim:
  assumes "obj_get g cid = None"
  shows "create_array_h (heap_of base g) (length base) cid = Some (heap_of base (g @ [(cid, [])]))"
proof -
  let ?b = "Suc (length base)"
  have "obj_get (props_of ?b g) cid = None"
    using assms by (simp add: obj_get_props_of key_index_None)
  then have s: "obj_set (props_of ?b g) cid (length (heap_of base g))
                  = props_of ?b (g @ [(cid, [])])"
    by (simp add: obj_set_absent length_heap_of props_of_append)
  have c: "cell_at (heap_of base g) (length base) = Some (GroupsCell (props_of ?b g))"
    using cell_at_groups [of base g "[]"] by simp
  show ?thesis
    unfolding create_array_h_def c alloc_def
    by (simp add: s) (simp add: heap_of_def list_update_append)
qed

lemma push_sim:
  "push_h (heap_of base g) (length base) cid asset
     = map_option (heap_of base) (obj_push g cid asset)"
proof (cases "key_index g cid")
  case None
  then have "obj_get g cid = None" "obj_get (props_of (Suc (length base)) g) cid = None"
    by (simp_all add: key_index_None obj_get_props_of)
  then show ?thesis
    using cell_at_groups [of base g "[]"]
    by (simp add: push_h_def obj_push_def obj_lookup_def)
next
  case (Some i)
  note k = key_index_Some [OF Some]
  have a: "obj_get (props_of (Suc (length base)) g) cid = Some (Suc (length base) + i)"
    by (simp add: obj_get_props_of Some)
  have c: "cell_at (heap_of base g) (Suc (length base) + i) = Some (ArrayCell (snd (g ! i)))"
    using cell_at_array [of i g base "[]"] k by simp
  have "push_h (heap_of base g) (length base) cid asset
          = Some ((heap_of base g)[Suc (length base) + i := ArrayCell (snd (g ! i) @ [asset])])"
    using cell_at_groups [of base g "[]"] a c
    by (simp add: push_h_def obj_lookup_def)
  also have "\<dots> = Some (heap_of base (g[i := (fst (g ! i), snd (g ! i) @ [asset])]))"
    using k update_array [of i g base "snd (g ! i) @ [asset]"] by simp
  also have "\<dots> = map_option (heap_of base) (obj_push g cid asset)"
    using k [of "snd (g ! i) @ [asset]"] by (simp add: obj_push_def obj_lookup_def)
  finally show ?thesis .
qed

lemma lookup_props_of:
  "obj_lookup (props_of b g) k = Undefined \<longleftrightarrow> obj_lookup g k = Undefined"
  by (cases "key_index g k")
     (auto simp: obj_lookup_def obj_get_props_of key_index_None dest: key_index_Some
        split: option.splits)

lemma group_step_sim:
  "group_step_h (heap_of base g) (length base) asset
     = map_option (heap_of base) (group_step g asset)"
proof (cases "truthy (company_id asset)")
  case False
  then show ?thesis
    by (simp add: group_step_h_def group_step_def)
next
  case True
  then obtain cid where cid: "company_id asset = Some cid"
    by (auto simp: truthy_Some)
  have c: "cell_at (heap_of base g) (length base)
             = Some (GroupsCell (props_of (Suc (length base)) g))"
    using cell_at_groups [of base g "[]"] by simp
  show ?thesis
  proof (cases "obj_lookup g cid = Undefined")
    case U: True
    then have n: "obj_get g cid = None"
      by (auto simp: obj_lookup_def split: option.splits if_splits)
    have "obj_set g cid [] = g @ [(cid, [])]"
      using n by (rule obj_set_absent)
    with U True cid c show ?thesis
      by (simp add: group_step_h_def group_step_def lookup_props_of create_array_sim [OF n] push_sim)
  next
    case N: False
    with True cid c show ?thesis
      by (simp add: group_step_h_def group_step_def lookup_props_of push_sim)
  qed
qed

lemma group_reduce_sim:
  "group_reduce_h (heap_of base g) (length base) as
     = map_option (heap_of base) (group_reduce g as)"
proof (induction as arbitrary: g)
  case Nil
  show ?case by simp
next
  case (Cons a as)
  show ?case
    by (cases "group_step g a") (simp_all add: group_step_sim Cons.IH)
qed

lemma assetsByCompany_sim:
  "assetsByCompany_h h as = map_option (\<lambda>g. (length h, heap_of h g)) (assetsByCompany as)"
proof -
  have "h @ [GroupsCell []] = heap_of h []"
    by (simp add: heap_of_def)
  then show ?thesis
    by (simp add: assetsByCompany_h_def alloc_def assetsByCompany_def group_reduce_sim
        option.map_comp comp_def)
qed

lemma count_reduce_sim:
  "count_reduce_h (h @ [CountsCell c]) (length h) as = Some (h @ [CountsCell (foldl count_step c as)])"
  by (induction as arbitrary: c) (simp_all add: count_step_h_def cell_at_def)

lemma assetsByStatus_sim:
  "assetsByStatus_h h as = Some (length h, h @ [CountsCell (assetsByStatus as)])"
  by (simp add: assetsByStatus_h_def alloc_def count_reduce_sim assetsByStatus_def)

lemma Aggregator_sim:
  "Aggregator h as =
     (case assetsByCompany as of
        None \<Rightarrow> None
      | Some g \<Rightarrow>
          Some (length h, Suc (length h + length g),
                heap_of h g @ [CountsCell (assetsByStatus as)]))"
  by (simp add: Aggregator_def assetsByCompany_sim assetsByStatus_sim length_heap_of
      split: option.splits)

lemma groups_at_heap_of: "groups_at (heap_of base g @ ext) (length base) = g"
proof -
  have "\<forall>i < length g. array_at (heap_of base g @ ext) (Suc (length base) + i) = snd (g ! i)"
    by (simp add: array_at_def cell_at_array)
  then have "map (\<lambda>p. (fst p, array_at (heap_of base g @ ext) (snd p)))
               (props_of (Suc (length base)) g) = g"
    by (rule read_back_props_of)
  then show ?thesis
    by (simp add: groups_at_def cell_at_groups)
qed

lemma counts_at_end: "counts_at ((h @ [CountsCell c]) @ ext) (length h) = c"
  by (simp add: counts_at_def cell_at_def nth_append)

lemma heap_of_extends: "\<exists>ext. heap_of base g = base @ ext"
  by (simp add: heap_of_def)

section \<open>Properties of the Enrichment Loader\<close>

lemma fetch_loop_first_rejected:
  "\<forall>k' \<in> set pre. is_resolved (fetch k') \<Longrightarrow> fetch k = Rejected e \<Longrightarrow>
   fetch_loop fetch (pre @ k # post) acc
     = (map GetClientMaintenanceSummary (pre @ [k]), Inl e)"
proof (induction pre arbitrary: acc)
  case Nil
  then show ?case by simp
next
  case (Cons p pre)
  from Cons.prems obtain s where "fetch p = Resolved s"
    by (cases "fetch p") auto
  with Cons show ?case by simp
qed

lemma fetch_loop_Inl:
  "fetch_loop fetch ks acc = (evs, Inl e) \<Longrightarrow>
   \<exists>pre k post. ks = pre @ k # post \<and> (\<forall>k' \<in> set pre. is_resolved (fetch k'))
      \<and> fetch k = Rejected e \<and> evs = map GetClientMaintenanceSummary (pre @ [k])"
proof (induction ks arbitrary: acc evs)
  case Nil
  then show ?case by simp
next
  case (Cons p ks)
  show ?case
  proof (cases "fetch p")
    case (Rejected e')
    with Cons.prems have "e' = e" "evs = [GetClientMaintenanceSummary p]"
      by auto
    with Rejected have "p # ks = [] @ p # ks \<and> (\<forall>k' \<in> set []. is_resolved (fetch k'))
      \<and> fetch p = Rejected e \<and> evs = map GetClientMaintenanceSummary ([] @ [p])"
      by simp
    then show ?thesis by blast
  next
    case (Resolved s)
    with Cons.prems obtain evs' where
      r: "fetch_loop fetch ks (obj_set acc p s) = (evs', Inl e)"
      and evs: "evs = GetClientMaintenanceSummary p # evs'"
      by (auto split: prod.splits)
    from Cons.IH [OF r] obtain pre k post where
      "ks = pre @ k # post" "\<forall>k' \<in> set pre. is_resolved (fetch k')"
      "fetch k = Rejected e" "evs' = map GetClientMaintenanceSummary (pre @ [k])"
      by blast
    with Resolved evs have "p # ks = (p # pre) @ k # post
      \<and> (\<forall>k' \<in> set (p # pre). is_resolved (fetch k'))
      \<and> fetch k = Rejected e \<and> evs = map GetClientMaintenanceSummary ((p # pre) @ [k])"
      by simp
    then show ?thesis by blast
  qed
qed

lemma fetch_loop_Inr:
  "fetch_loop fetch ks acc = (evs, Inr m) \<Longrightarrow>
   evs = map GetClientMaintenanceSummary ks \<and> (\<forall>k \<in> set ks. is_resolved (fetch k))
   \<and> obj_get m k = (if k \<in> set ks then (case fetch k of Resolved s \<Rightarrow> Some s | Rejected _ \<Rightarrow> None)
                     else obj_get acc k)"
proof (induction ks arbitrary: acc evs)
  case Nil
  then show ?case by simp
next
  case (Cons p ks)
  show ?case
  proof (cases "fetch p")
    case (Rejected e')
    with Cons.prems show ?thesis by simp
  next
    case (Resolved s)
    with Cons.prems obtain evs' where
      r: "fetch_loop fetch ks (obj_set acc p s) = (evs', Inr m)"
      and evs: "evs = GetClientMaintenanceSummary p # evs'"
      by (auto split: prod.splits)
    from Cons.IH [OF r] Resolved evs show ?thesis
      by (auto simp: obj_get_obj_set)
  qed
qed

lemma fetch_loop_keys:
  "fetch_loop fetch ks acc = (evs, Inr m) \<Longrightarrow> distinct ks \<Longrightarrow>
   set ks \<inter> set (map fst acc) = {} \<Longrightarrow> map fst m = map fst acc @ ks"
proof (induction ks arbitrary: acc evs)
  case Nil
  then show ?case by simp
next
  case (Cons p ks)
  show ?case
  proof (cases "fetch p")
    case (Rejected e')
    with Cons.prems show ?thesis by simp
  next
    case (Resolved s)
    with Cons.prems obtain evs' where
      r: "fetch_loop fetch ks (obj_set acc p s) = (evs', Inr m)"
      by (auto split: prod.splits)
    have k: "map fst (obj_set acc p s) = map fst acc @ [p]"
      using Cons.prems by (simp add: keys_obj_set)
    have "map fst m = map fst (obj_set acc p s) @ ks"
    proof (rule Cons.IH [OF r])
      show "distinct ks" using Cons.prems by simp
      show "set ks \<inter> set (map fst (obj_set acc p s)) = {}"
        unfolding k using Cons.prems by auto
    qed
    with k show ?thesis by simp
  qed
qed

lemma loadMaintenanceSummaries_eq:
  "loadMaintenanceSummaries fetch groups =
     (case fetch_loop fetch (object_keys groups) [] of
        (evs, Inr m) \<Rightarrow>
          (SetLoading True # evs @ [SetMaintenanceSummaries m, SetLoading False], Inr ())
      | (evs, Inl e) \<Rightarrow>
          (SetLoading True # evs @ [ConsoleError e, SetLoading False], Inr ()))"
  by (simp add: loadMaintenanceSummaries_def and_then_def try_catch_def emit_def
      split: prod.splits sum.splits)

lemma run_append: "run st (xs @ ys) = run (run st xs) ys"
  by (simp add: run_def)

lemma run_Cons: "run st (x # xs) = run (apply_effect st x) xs"
  by (simp add: run_def)

lemma run_Nil: "run st [] = st"
  by (simp add: run_def)

lemma loading_run:
  "\<forall>ev \<in> set evs. \<not> is_SetLoading ev \<Longrightarrow> loading (run st evs) = loading st"
proof (induction evs arbitrary: st)
  case Nil
  show ?case by (simp add: run_Nil)
next
  case (Cons ev evs)
  then show ?case by (cases ev) (simp_all add: run_Cons)
qed

lemma maintenanceSummaries_run:
  "\<forall>ev \<in> set evs. \<not> is_SetMaintenanceSummaries ev \<Longrightarrow>
   maintenanceSummaries (run st evs) = maintenanceSummaries st"
proof (induction evs arbitrary: st)
  case Nil
  show ?case by (simp add: run_Nil)
next
  case (Cons ev evs)
  then show ?case by (cases ev) (simp_all add: run_Cons)
qed

lemma fetch_loop_effects:
  "ev \<in> set (fst (fetch_loop fetch ks acc)) \<Longrightarrow>
   \<not> is_SetLoading ev \<and> \<not> is_SetMaintenanceSummaries ev"
proof (induction ks arbitrary: acc)
  case Nil
  then show ?case by simp
next
  case (Cons p ks)
  show ?case
  proof (cases "fetch p")
    case (Rejected e)
    with Cons.prems show ?thesis by auto
  next
    case (Resolved s)
    obtain evs r where r: "fetch_loop fetch ks (obj_set acc p s) = (evs, r)"
      by (cases "fetch_loop fetch ks (obj_set acc p s)")
    with Resolved Cons.prems have "ev = GetClientMaintenanceSummary p \<or> ev \<in> set evs"
      by auto
    then show ?thesis
    proof
      assume "ev = GetClientMaintenanceSummary p"
      then show ?thesis by simp
    next
      assume "ev \<in> set evs"
      then have "ev \<in> set (fst (fetch_loop fetch ks (obj_set acc p s)))"
        using r by simp
      then show ?thesis by (rule Cons.IH)
    qed
  qed
qed

lemma fetch_loop_Inr_iff:
  "(\<exists>m. snd (fetch_loop fetch ks acc) = Inr m) \<longleftrightarrow> (\<forall>k \<in> set ks. is_resolved (fetch k))"
proof
  assume "\<exists>m. snd (fetch_loop fetch ks acc) = Inr m"
  then obtain evs m where "fetch_loop fetch ks acc = (evs, Inr m)"
    by (metis prod.collapse)
  from fetch_loop_Inr [OF this] show "\<forall>k \<in> set ks. is_resolved (fetch k)"
    by blast
next
  assume a: "\<forall>k \<in> set ks. is_resolved (fetch k)"
  show "\<exists>m. snd (fetch_loop fetch ks acc) = Inr m"
  proof (cases "snd (fetch_loop fetch ks acc)")
    case (Inl e)
    then have "fetch_loop fetch ks acc = (fst (fetch_loop fetch ks acc), Inl e)"
      by (metis prod.collapse)
    from fetch_loop_Inl [OF this] a show ?thesis
      by (metis in_set_conv_decomp outcome.disc(2))
  next
    case (Inr m)
    then show ?thesis by blast
  qed
qed

lemma load_effects_Inr:
  "fetch_loop fetch (object_keys groups) [] = (evs, Inr m) \<Longrightarrow>
   loadMaintenanceSummaries fetch groups
     = (SetLoading True # evs @ [SetMaintenanceSummaries m, SetLoading False], Inr ())"
  by (simp add: loadMaintenanceSummaries_eq)

lemma load_effects_Inl:
  "fetch_loop fetch (object_keys groups) [] = (evs, Inl e) \<Longrightarrow>
   loadMaintenanceSummaries fetch groups
     = (SetLoading True # evs @ [ConsoleError e, SetLoading False], Inr ())"
  by (simp add: loadMaintenanceSummaries_eq)

lemma load_shape:
  "\<exists>evs x. fst (loadMaintenanceSummaries fetch groups) = SetLoading True # (evs @ [x]) @ [SetLoading False]
     \<and> evs = fst (fetch_loop fetch (object_keys groups) [])
     \<and> x = (case snd (fetch_loop fetch (object_keys groups) []) of
              Inr m \<Rightarrow> SetMaintenanceSummaries m | Inl e \<Rightarrow> ConsoleError e)
     \<and> snd (loadMaintenanceSummaries fetch groups) = Inr ()"
  by (cases "fetch_loop fetch (object_keys groups) []")
     (auto simp: loadMaintenanceSummaries_eq split: sum.splits)

lemma load_rejected:
  assumes "\<exists>k \<in> set (object_keys groups). \<not> is_resolved (fetch k)"
  shows "\<exists>pre k post e. object_keys groups = pre @ k # post
           \<and> (\<forall>k' \<in> set pre. is_resolved (fetch k')) \<and> fetch k = Rejected e
           \<and> loadMaintenanceSummaries fetch groups =
               (SetLoading True # map GetClientMaintenanceSummary (pre @ [k])
                  @ [ConsoleError e, SetLoading False], Inr ())"
proof -
  obtain evs r where r: "fetch_loop fetch (object_keys groups) [] = (evs, r)"
    by (cases "fetch_loop fetch (object_keys groups) []")
  show ?thesis
  proof (cases r)
    case (Inr m)
    with r fetch_loop_Inr [of fetch "object_keys groups" "[]" evs m] assms
    show ?thesis by blast
  next
    case (Inl e)
    with r have l: "fetch_loop fetch (object_keys groups) [] = (evs, Inl e)"
      by simp
    from fetch_loop_Inl [OF l] obtain pre k post where
      p: "object_keys groups = pre @ k # post" "\<forall>k' \<in> set pre. is_resolved (fetch k')"
         "fetch k = Rejected e" "evs = map GetClientMaintenanceSummary (pre @ [k])"
      by blast
    from load_effects_Inl [OF l] p(4)
    have "loadMaintenanceSummaries fetch groups =
               (SetLoading True # map GetClientMaintenanceSummary (pre @ [k])
                  @ [ConsoleError e, SetLoading False], Inr ())"
      by simp
    with p show ?thesis by blast
  qed
qed

lemma load_resolved:
  assumes "\<forall>k \<in> set (object_keys groups). is_resolved (fetch k)"
  shows "\<exists>m. fetch_loop fetch (object_keys groups) [] =
               (map GetClientMaintenanceSummary (object_keys groups), Inr m)
           \<and> loadMaintenanceSummaries fetch groups =
               (SetLoading True # map GetClientMaintenanceSummary (object_keys groups)
                  @ [SetMaintenanceSummaries m, SetLoading False], Inr ())"
proof -
  from assms obtain m where "snd (fetch_loop fetch (object_keys groups) []) = Inr m"
    using fetch_loop_Inr_iff by blast
  then have r: "fetch_loop fetch (object_keys groups) []
                  = (fst (fetch_loop fetch (object_keys groups) []), Inr m)"
    by (metis prod.collapse)
  from fetch_loop_Inr [OF r, of "[]"] have
    "fst (fetch_loop fetch (object_keys groups) []) = map GetClientMaintenanceSummary (object_keys groups)"
    by simp
  with r load_effects_Inr [OF r] show ?thesis by simp
qed

lemma run_fetches: "run st (map GetClientMaintenanceSummary ks) = st"
  unfolding run_def by (induction ks) simp_all

lemma filter_commits_fetches:
  "filter is_SetMaintenanceSummaries (map GetClientMaintenanceSummary ks) = []"
  by (induction ks) simp_all

lemma run_rejected:
  "run st (SetLoading True # map GetClientMaintenanceSummary ks @ [ConsoleError e, SetLoading False])
     = st\<lparr>loading := False\<rparr>"
  by (simp add: run_Cons run_append run_Nil run_fetches)

lemma run_resolved:
  "run st (SetLoading True # map GetClientMaintenanceSummary ks
             @ [SetMaintenanceSummaries m, SetLoading False])
     = st\<lparr>maintenanceSummaries := m, loading := False\<rparr>"
  by (simp add: run_Cons run_append run_Nil run_fetches)

lemma visible_during_pass:
  "maintenanceSummaries
     (run (initial_state initialAssets) (take i (fst (loadMaintenanceSummaries fetch groups))))
     = (case snd (fetch_loop fetch (object_keys groups) []) of
          Inl e \<Rightarrow> []
        | Inr m \<Rightarrow> if length (object_keys groups) + 2 \<le> i then m else [])"
proof -
  obtain evs r where r: "fetch_loop fetch (object_keys groups) [] = (evs, r)"
    by (cases "fetch_loop fetch (object_keys groups) []")
  show ?thesis
  proof (cases r)
    case (Inl e)
    with r have l: "fetch_loop fetch (object_keys groups) [] = (evs, Inl e)"
      by simp
    have "\<forall>ev \<in> set evs. \<not> is_SetMaintenanceSummaries ev"
      using fetch_loop_effects [of _ fetch "object_keys groups" "[]"] l by simp
    then have "\<forall>ev \<in> set (fst (loadMaintenanceSummaries fetch groups)).
                 \<not> is_SetMaintenanceSummaries ev"
      unfolding load_effects_Inl [OF l] by simp
    then have "\<forall>ev \<in> set (take i (fst (loadMaintenanceSummaries fetch groups))).
                 \<not> is_SetMaintenanceSummaries ev"
      by (meson in_set_takeD)
    then have "maintenanceSummaries
       (run (initial_state initialAssets) (take i (fst (loadMaintenanceSummaries fetch groups))))
        = maintenanceSummaries (initial_state initialAssets)"
      by (rule maintenanceSummaries_run)
    with l show ?thesis
      by (simp add: initial_state_def)
  next
    case (Inr m)
    with r have l: "fetch_loop fetch (object_keys groups) [] = (evs, Inr m)"
      by simp
    let ?ks = "object_keys groups"
    let ?pre = "SetLoading True # map GetClientMaintenanceSummary ?ks"
    have evs: "evs = map GetClientMaintenanceSummary ?ks"
      using fetch_loop_Inr [OF l, of "[]"] by simp
    have total: "fst (loadMaintenanceSummaries fetch groups)
                   = ?pre @ [SetMaintenanceSummaries m, SetLoading False]"
      unfolding load_effects_Inr [OF l] evs by simp
    have pre: "\<forall>ev \<in> set ?pre. \<not> is_SetMaintenanceSummaries ev"
      by auto
    show ?thesis
    proof (cases "length ?ks + 2 \<le> i")
      case False
      then have le: "i - length ?pre = 0"
        by simp
      have t: "take i (fst (loadMaintenanceSummaries fetch groups)) = take i ?pre"
        unfolding total take_append le by simp
      have "\<forall>ev \<in> set (take i ?pre). \<not> is_SetMaintenanceSummaries ev"
        using pre by (meson in_set_takeD)
      then have "maintenanceSummaries (run (initial_state initialAssets) (take i ?pre))
          = maintenanceSummaries (initial_state initialAssets)"
        by (rule maintenanceSummaries_run)
      then have "maintenanceSummaries
         (run (initial_state initialAssets) (take i (fst (loadMaintenanceSummaries fetch groups))))
          = maintenanceSummaries (initial_state initialAssets)"
        unfolding t .
      with l False show ?thesis
        by (simp add: initial_state_def)
    next
      case True
      then obtain d where d: "i = length ?pre + Suc d"
        by (metis add_2_eq_Suc' le_Suc_ex length_Cons length_map add_Suc_right add_Suc)
      have "take i (fst (loadMaintenanceSummaries fetch groups))
              = ?pre @ SetMaintenanceSummaries m # take d [SetLoading False]"
        unfolding total d by simp
      then have "maintenanceSummaries
         (run (initial_state initialAssets) (take i (fst (loadMaintenanceSummaries fetch groups))))
          = m"
        by (cases d) (simp_all add: run_Cons run_append run_Nil run_fetches)
      with l True show ?thesis by simp
    qed
  qed
qed

lemma take_after_fetches:
  assumes l: "fetch_loop fetch (object_keys groups) [] = (evs, Inr m)"
    and i: "length (object_keys groups) + 2 \<le> i"
  shows "\<exists>rest. take i (fst (loadMaintenanceSummaries fetch groups))
           = SetLoading True # map GetClientMaintenanceSummary (object_keys groups)
               @ SetMaintenanceSummaries m # rest"
proof -
  let ?pre = "SetLoading True # map GetClientMaintenanceSummary (object_keys groups)"
  have evs: "evs = map GetClientMaintenanceSummary (object_keys groups)"
    using fetch_loop_Inr [OF l, of "[]"] by simp
  have total: "fst (loadMaintenanceSummaries fetch groups)
                 = ?pre @ [SetMaintenanceSummaries m, SetLoading False]"
    unfolding load_effects_Inr [OF l] evs by simp
  from i obtain d where d: "i = length ?pre + Suc d"
    by (metis add_2_eq_Suc' le_Suc_ex length_Cons length_map add_Suc_right add_Suc)
  have "take i (fst (loadMaintenanceSummaries fetch groups))
          = ?pre @ SetMaintenanceSummaries m # take d [SetLoading False]"
    unfolding total d by simp
  then show ?thesis by simp
qed

text \<open>The definitions that a concrete check unfolds.\<close>

lemmas eval_defs = assetsByCompany_def group_step_def truthy_def obj_push_def obj_lookup_def
  inherits_def object_prototype_members_def obj_assign_def object_values_def
  object_keys_def object_entries_def is_array_index_def is_digit_def asset_of_def assetsByStatus_def
  count_step_def fetch_B_rejects_def assets_ABC_def assets_AC_def groups_ABC_def groups_AC_def
  initial_state_def

lemmas stats_eval = maintenanceStats_def stats_step_def object_values_def object_entries_def
  is_array_index_def is_digit_def summary_with_def safe_total_def is_count_def int_of_def

lemmas heap_eval = Aggregator_def assetsByCompany_h_def assetsByStatus_h_def alloc_def
  group_step_h_def create_array_h_def push_h_def count_step_h_def cell_at_def
  groups_at_def counts_at_def array_at_def truthy_def obj_lookup_def inherits_def
  object_prototype_members_def obj_assign_def count_step_def asset_of_def

section \<open>Results\<close>

text \<open>
  C9. On a summary mapping without entries the totals fold returns zero schedules, zero
  overdue maintenances and zero upcoming maintenances.
\<close>

theorem maintenanceStats_empty:
  "maintenanceStats [] =
     \<lparr>totalSchedules = Finite 0, overdueMaintenances = Finite 0, upcomingMaintenances = Finite 0\<rparr>"
  by (simp add: maintenanceStats_def object_values_def object_entries_def)

text \<open>
  C5, as the code has it. For every asset list in which no status names a member of
  \<^verbatim>\<open>Object.prototype\<close>, every value of the status-count mapping is a number and the
  values, as \<^verbatim>\<open>Object.values\<close> lists them, add up to the number of assets in the list.
\<close>

theorem assetsByStatus_conservation:
  "\<forall>a \<in> set as. \<not> inherits (status a) \<Longrightarrow>
   list_all is_Num (object_values (assetsByStatus as))
   \<and> sum_list (map count (object_values (assetsByStatus as))) = totalAssets as"
proof -
  assume h: "\<forall>a \<in> set as. \<not> inherits (status a)"
  let ?c = "foldl tally_step [] as"
  have e: "assetsByStatus as = num_obj ?c"
    using h by (rule assetsByStatus_num_obj)
  have p: "mset (object_values (num_obj ?c)) = mset (map snd (num_obj ?c))"
    by (rule mset_object_values)
  have "list_all is_Num (object_values (num_obj ?c))"
    using list_all_mset [OF p] values_num_obj by blast
  moreover have "sum_list (map count (object_values (num_obj ?c)))
                   = sum_list (map count (map snd (num_obj ?c)))"
    by (rule sum_list_cong_nat) (use p in \<open>metis mset_map\<close>)
  then have "sum_list (map count (object_values (num_obj ?c))) = length as"
    using values_num_obj [of ?c] by (simp add: foldl_tally_step_sum)
  ultimately show ?thesis
    unfolding e by (simp add: totalAssets_def)
qed

theorem assetsByStatus_conservation_witness:
  "\<not> inherits ''active'' \<and> \<not> inherits ''retired''
   \<and> object_values (assetsByStatus
       [asset_of ''a1'' (Some ''A'') ''active'', asset_of ''a2'' None ''retired'',
        asset_of ''a3'' None ''active'']) = [Num 2, Num 1]
   \<and> list_all is_Num (object_values (assetsByStatus
       [asset_of ''a1'' (Some ''A'') ''active'', asset_of ''a2'' None ''retired'',
        asset_of ''a3'' None ''active'']))
   \<and> sum_list (map count (object_values (assetsByStatus
       [asset_of ''a1'' (Some ''A'') ''active'', asset_of ''a2'' None ''retired'',
        asset_of ''a3'' None ''active'']))) = 3
   \<and> totalAssets
       [asset_of ''a1'' (Some ''A'') ''active'', asset_of ''a2'' None ''retired'',
        asset_of ''a3'' None ''active''] = 3"
proof -
  have h: "\<forall>a \<in> set [asset_of ''a1'' (Some ''A'') ''active'', asset_of ''a2'' None ''retired'',
        asset_of ''a3'' None ''active'']. \<not> inherits (status a)"
    by (simp add: eval_defs)
  have i: "\<not> inherits ''active'' \<and> \<not> inherits ''retired''"
    by (simp add: eval_defs)
  have v: "object_values (assetsByStatus
       [asset_of ''a1'' (Some ''A'') ''active'', asset_of ''a2'' None ''retired'',
        asset_of ''a3'' None ''active'']) = [Num 2, Num 1]"
    by (simp add: eval_defs)
  from assetsByStatus_conservation [OF h] i v show ?thesis
    by (simp add: totalAssets_def)
qed

text \<open>
  C5 as stated fails for a status that names an inherited member: under \<^verbatim>\<open>__proto__\<close>
  the assignment creates no property, so one asset gives an empty mapping; under
  \<^verbatim>\<open>constructor\<close> the stored value is a string.
\<close>

theorem assetsByStatus_inherited_status:
  "object_values (assetsByStatus [asset_of ''a1'' None ''__proto__'']) = []
   \<and> totalAssets [asset_of ''a1'' None ''__proto__''] = 1
   \<and> object_values (assetsByStatus [asset_of ''a1'' None ''constructor''])
       = [Str ''function Object() { [native code] }1'']"
  by (simp add: eval_defs totalAssets_def inherited_text_def)

text \<open>
  C4, as the code has it. For every asset list in which no company identifier names a
  member of \<^verbatim>\<open>Object.prototype\<close>, the grouping returns an object with each key once, and
  the flattening of its values (in \<^verbatim>\<open>Object.values\<close> order) holds exactly the input
  assets whose company identifier is truthy, that is neither \<^verbatim>\<open>null\<close> nor the empty
  string, each as often as the input does. The group of a company identifier is the
  subsequence of the input assets with that identifier, in input order, and an asset with
  a \<^verbatim>\<open>null\<close> (or empty) identifier is in no group. When an identifier does name an
  inherited member, the grouping throws. When no status names an inherited member, the
  count of a status is the number of all input assets with that status, whatever their
  company.
\<close>

theorem assetsByCompany_stable_partition:
  "((\<forall>a \<in> set as. \<forall>c. company_id a = Some c \<longrightarrow> \<not> inherits c) \<longrightarrow>
      (\<exists>groups. assetsByCompany as = Some groups
         \<and> distinct (object_keys groups)
         \<and> mset (concat (object_values groups)) = mset (filter (\<lambda>a. truthy (company_id a)) as)
         \<and> obj_get groups k =
             (if k \<noteq> [] \<and> (\<exists>a \<in> set as. company_id a = Some k)
              then Some (filter (\<lambda>a. company_id a = Some k) as) else None)
         \<and> (\<not> truthy (company_id x) \<longrightarrow> x \<notin> set (concat (object_values groups)))))
   \<and> ((\<exists>a \<in> set as. \<exists>c. company_id a = Some c \<and> inherits c) \<longrightarrow> assetsByCompany as = None)
   \<and> ((\<forall>a \<in> set as. \<not> inherits (status a)) \<longrightarrow>
        obj_get (assetsByStatus as) s =
          (if \<exists>a \<in> set as. status a = s
           then Some (Num (length (filter (\<lambda>a. status a = s) as))) else None))"
proof (intro conjI impI)
  assume h: "\<forall>a \<in> set as. \<forall>c. company_id a = Some c \<longrightarrow> \<not> inherits c"
  then obtain groups where g: "group_reduce [] as = Some groups"
    using group_reduce_total by blast
  have d: "distinct (object_keys groups)"
    using g by (intro distinct_group_keys [of as]) (simp add: assetsByCompany_def)
  have "mset (concat (object_values groups)) = mset (concat (map snd groups))"
    by (rule mset_concat_cong) (rule mset_object_values)
  then have m: "mset (concat (object_values groups))
                  = mset (filter (\<lambda>a. truthy (company_id a)) as)"
    using group_reduce_mset [OF g] by simp
  have l: "obj_get groups k =
         (if k \<noteq> [] \<and> (\<exists>a \<in> set as. company_id a = Some k)
          then Some (filter (\<lambda>a. company_id a = Some k) as) else None)"
    using group_reduce_get [OF g, of k] by (simp add: group_of_def)
  have n: "\<not> truthy (company_id x) \<longrightarrow> x \<notin> set (concat (object_values groups))"
    using concat_values_notin [OF m] by blast
  from g d m l n show "\<exists>groups. assetsByCompany as = Some groups
         \<and> distinct (object_keys groups)
         \<and> mset (concat (object_values groups)) = mset (filter (\<lambda>a. truthy (company_id a)) as)
         \<and> obj_get groups k =
             (if k \<noteq> [] \<and> (\<exists>a \<in> set as. company_id a = Some k)
              then Some (filter (\<lambda>a. company_id a = Some k) as) else None)
         \<and> (\<not> truthy (company_id x) \<longrightarrow> x \<notin> set (concat (object_values groups)))"
    unfolding assetsByCompany_def by blast
next
  assume "\<exists>a \<in> set as. \<exists>c. company_id a = Some c \<and> inherits c"
  then show "assetsByCompany as = None"
    unfolding assetsByCompany_def by (rule group_reduce_throws) simp
next
  assume "\<forall>a \<in> set as. \<not> inherits (status a)"
  then have "assetsByStatus as = num_obj (foldl tally_step [] as)"
    by (rule assetsByStatus_num_obj)
  then show "obj_get (assetsByStatus as) s =
          (if \<exists>a \<in> set as. status a = s
           then Some (Num (length (filter (\<lambda>a. status a = s) as))) else None)"
    by (simp add: obj_get_num_obj foldl_tally_step_get count_of_def)
qed

theorem assetsByCompany_stable_partition_witness:
  "\<not> inherits ''A'' \<and> \<not> inherits ''B'' \<and> \<not> inherits ''active'' \<and> \<not> inherits ''retired''
   \<and> assetsByCompany
     [asset_of ''a1'' (Some ''A'') ''active'', asset_of ''a2'' None ''active'',
      asset_of ''a3'' (Some ''B'') ''retired'', asset_of ''a4'' (Some ''A'') ''active'']
   = Some [(''A'', [asset_of ''a1'' (Some ''A'') ''active'', asset_of ''a4'' (Some ''A'') ''active'']),
           (''B'', [asset_of ''a3'' (Some ''B'') ''retired''])]
   \<and> asset_of ''a2'' None ''active'' \<in> set
     [asset_of ''a1'' (Some ''A'') ''active'', asset_of ''a2'' None ''active'',
      asset_of ''a3'' (Some ''B'') ''retired'', asset_of ''a4'' (Some ''A'') ''active'']
   \<and> \<not> truthy (company_id (asset_of ''a2'' None ''active''))
   \<and> obj_get (assetsByStatus
     [asset_of ''a1'' (Some ''A'') ''active'', asset_of ''a2'' None ''active'',
      asset_of ''a3'' (Some ''B'') ''retired'', asset_of ''a4'' (Some ''A'') ''active'']) ''active''
       = Some (Num 3)
   \<and> inherits ''toString''
   \<and> assetsByCompany
     [asset_of ''a1'' (Some ''A'') ''active'', asset_of ''a5'' (Some ''toString'') ''active''] = None"
  using assetsByCompany_stable_partition
    [of "[asset_of ''a1'' (Some ''A'') ''active'', asset_of ''a2'' None ''active'',
      asset_of ''a3'' (Some ''B'') ''retired'', asset_of ''a4'' (Some ''A'') ''active'']"
      "''A''" "asset_of ''a2'' None ''active''" "''active''"]
    assetsByCompany_stable_partition
    [of "[asset_of ''a1'' (Some ''A'') ''active'', asset_of ''a5'' (Some ''toString'') ''active'']"]
  by (simp add: eval_defs)

text \<open>
  C4 as stated fails for an asset whose company identifier is the empty string: the
  identifier is not \<^verbatim>\<open>null\<close>, yet the guard \<^verbatim>\<open>!asset.company_id\<close> skips the asset and
  no group holds it. It also fails for the identifier \<^verbatim>\<open>constructor\<close>, where the
  grouping throws and there are no groups at all.
\<close>

theorem assetsByCompany_empty_identifier:
  "company_id (asset_of ''a5'' (Some '''') ''active'') \<noteq> None
   \<and> assetsByCompany [asset_of ''a5'' (Some '''') ''active''] = Some []
   \<and> company_id (asset_of ''a6'' (Some ''constructor'') ''active'') \<noteq> None
   \<and> assetsByCompany [asset_of ''a6'' (Some ''constructor'') ''active''] = None"
  by (simp add: eval_defs)

text \<open>
  C8, as the code has it. Two summary mappings that hold the same entries, created in
  different orders, have the same totals when the counters are counts and each of the
  three exact sums is at most \<open>2^53\<close>; the totals are then the exact sums.
\<close>

theorem maintenanceStats_order_independent:
  "mset summaries1 = mset summaries2 \<Longrightarrow>
   safe_total (map (\<lambda>p. total_schedules (snd p)) summaries1) \<Longrightarrow>
   safe_total (map (\<lambda>p. overdue_maintenances (snd p)) summaries1) \<Longrightarrow>
   safe_total (map (\<lambda>p. upcoming_maintenances (snd p)) summaries1) \<Longrightarrow>
   maintenanceStats summaries1 = maintenanceStats summaries2
   \<and> maintenanceStats summaries1 =
       \<lparr>totalSchedules =
          Finite (sum_list (map (\<lambda>p. int_of (total_schedules (snd p))) summaries1)),
        overdueMaintenances =
          Finite (sum_list (map (\<lambda>p. int_of (overdue_maintenances (snd p))) summaries1)),
        upcomingMaintenances =
          Finite (sum_list (map (\<lambda>p. int_of (upcoming_maintenances (snd p))) summaries1))\<rparr>"
proof -
  assume p: "mset summaries1 = mset summaries2"
    and t: "safe_total (map (\<lambda>p. total_schedules (snd p)) summaries1)"
    and v: "safe_total (map (\<lambda>p. overdue_maintenances (snd p)) summaries1)"
    and u: "safe_total (map (\<lambda>p. upcoming_maintenances (snd p)) summaries1)"
  have one: "maintenanceStats summaries1 =
       \<lparr>totalSchedules =
          Finite (sum_list (map (\<lambda>p. int_of (total_schedules (snd p))) summaries1)),
        overdueMaintenances =
          Finite (sum_list (map (\<lambda>p. int_of (overdue_maintenances (snd p))) summaries1)),
        upcomingMaintenances =
          Finite (sum_list (map (\<lambda>p. int_of (upcoming_maintenances (snd p))) summaries1))\<rparr>"
    unfolding maintenanceStats_folds
    by (simp add: fold_field_safe [OF t] fold_field_safe [OF v] fold_field_safe [OF u])
  have two: "maintenanceStats summaries2 =
       \<lparr>totalSchedules =
          Finite (sum_list (map (\<lambda>p. int_of (total_schedules (snd p))) summaries2)),
        overdueMaintenances =
          Finite (sum_list (map (\<lambda>p. int_of (overdue_maintenances (snd p))) summaries2)),
        upcomingMaintenances =
          Finite (sum_list (map (\<lambda>p. int_of (upcoming_maintenances (snd p))) summaries2))\<rparr>"
    unfolding maintenanceStats_folds
    by (simp add: fold_field_safe [OF safe_field_mset [OF p t]]
        fold_field_safe [OF safe_field_mset [OF p v]]
        fold_field_safe [OF safe_field_mset [OF p u]])
  have "maintenanceStats summaries1 = maintenanceStats summaries2"
    unfolding one two
    by (simp add: sum_field_mset [OF p, of "\<lambda>p. int_of (total_schedules (snd p))"]
        sum_field_mset [OF p, of "\<lambda>p. int_of (overdue_maintenances (snd p))"]
        sum_field_mset [OF p, of "\<lambda>p. int_of (upcoming_maintenances (snd p))"])
  with one show ?thesis by blast
qed

theorem maintenanceStats_order_independent_witness:
  "mset [(''A'', \<lparr>total_schedules = Finite 5, overdue_maintenances = Finite 1,
                   upcoming_maintenances = Finite 2, compliance_rate = 80\<rparr>),
         (''C'', \<lparr>total_schedules = Finite 3, overdue_maintenances = Finite 0,
                   upcoming_maintenances = Finite 1, compliance_rate = 100\<rparr>)]
   = mset [(''C'', \<lparr>total_schedules = Finite 3, overdue_maintenances = Finite 0,
                     upcoming_maintenances = Finite 1, compliance_rate = 100\<rparr>),
           (''A'', \<lparr>total_schedules = Finite 5, overdue_maintenances = Finite 1,
                     upcoming_maintenances = Finite 2, compliance_rate = 80\<rparr>)]
   \<and> safe_total [Finite 5, Finite 3] \<and> safe_total [Finite 1, Finite 0]
   \<and> safe_total [Finite 2, Finite 1]
   \<and> maintenanceStats
        [(''A'', \<lparr>total_schedules = Finite 5, overdue_maintenances = Finite 1,
                   upcoming_maintenances = Finite 2, compliance_rate = 80\<rparr>),
         (''C'', \<lparr>total_schedules = Finite 3, overdue_maintenances = Finite 0,
                   upcoming_maintenances = Finite 1, compliance_rate = 100\<rparr>)]
     = maintenanceStats
        [(''C'', \<lparr>total_schedules = Finite 3, overdue_maintenances = Finite 0,
                   upcoming_maintenances = Finite 1, compliance_rate = 100\<rparr>),
         (''A'', \<lparr>total_schedules = Finite 5, overdue_maintenances = Finite 1,
                   upcoming_maintenances = Finite 2, compliance_rate = 80\<rparr>)]
   \<and> maintenanceStats
        [(''A'', \<lparr>total_schedules = Finite 5, overdue_maintenances = Finite 1,
                   upcoming_maintenances = Finite 2, compliance_rate = 80\<rparr>),
         (''C'', \<lparr>total_schedules = Finite 3, overdue_maintenances = Finite 0,
                   upcoming_maintenances = Finite 1, compliance_rate = 100\<rparr>)]
     = \<lparr>totalSchedules = Finite 8, overdueMaintenances = Finite 1,
        upcomingMaintenances = Finite 3\<rparr>"
proof -
  have p: "mset [(''A'', \<lparr>total_schedules = Finite 5, overdue_maintenances = Finite 1,
                   upcoming_maintenances = Finite 2, compliance_rate = 80\<rparr>),
         (''C'', \<lparr>total_schedules = Finite 3, overdue_maintenances = Finite 0,
                   upcoming_maintenances = Finite 1, compliance_rate = 100\<rparr>)]
   = mset [(''C'', \<lparr>total_schedules = Finite 3, overdue_maintenances = Finite 0,
                     upcoming_maintenances = Finite 1, compliance_rate = (100::real)\<rparr>),
           (''A'', \<lparr>total_schedules = Finite 5, overdue_maintenances = Finite 1,
                     upcoming_maintenances = Finite 2, compliance_rate = 80\<rparr>)]"
    by (simp add: add_mset_commute)
  have t: "safe_total (map (\<lambda>p. total_schedules (snd p))
     [(''A'', \<lparr>total_schedules = Finite 5, overdue_maintenances = Finite 1,
                   upcoming_maintenances = Finite 2, compliance_rate = (80::real)\<rparr>),
         (''C'', \<lparr>total_schedules = Finite 3, overdue_maintenances = Finite 0,
                   upcoming_maintenances = Finite 1, compliance_rate = 100\<rparr>)])"
    by (simp add: stats_eval)
  have v: "safe_total (map (\<lambda>p. overdue_maintenances (snd p))
     [(''A'', \<lparr>total_schedules = Finite 5, overdue_maintenances = Finite 1,
                   upcoming_maintenances = Finite 2, compliance_rate = (80::real)\<rparr>),
         (''C'', \<lparr>total_schedules = Finite 3, overdue_maintenances = Finite 0,
                   upcoming_maintenances = Finite 1, compliance_rate = 100\<rparr>)])"
    by (simp add: stats_eval)
  have u: "safe_total (map (\<lambda>p. upcoming_maintenances (snd p))
     [(''A'', \<lparr>total_schedules = Finite 5, overdue_maintenances = Finite 1,
                   upcoming_maintenances = Finite 2, compliance_rate = (80::real)\<rparr>),
         (''C'', \<lparr>total_schedules = Finite 3, overdue_maintenances = Finite 0,
                   upcoming_maintenances = Finite 1, compliance_rate = 100\<rparr>)])"
    by (simp add: stats_eval)
  note r = maintenanceStats_order_independent [OF p t v u]
  have s: "safe_total [Finite 5, Finite 3] \<and> safe_total [Finite 1, Finite 0]
   \<and> safe_total [Finite 2, Finite 1]"
    by (simp add: stats_eval)
  from r [THEN conjunct2] have e: "maintenanceStats
        [(''A'', \<lparr>total_schedules = Finite 5, overdue_maintenances = Finite 1,
                   upcoming_maintenances = Finite 2, compliance_rate = 80\<rparr>),
         (''C'', \<lparr>total_schedules = Finite 3, overdue_maintenances = Finite 0,
                   upcoming_maintenances = Finite 1, compliance_rate = 100\<rparr>)]
     = \<lparr>totalSchedules = Finite 8, overdueMaintenances = Finite 1,
        upcomingMaintenances = Finite 3\<rparr>"
    by (simp add: int_of_def)
  from r have q: "maintenanceStats
        [(''A'', \<lparr>total_schedules = Finite 5, overdue_maintenances = Finite 1,
                   upcoming_maintenances = Finite 2, compliance_rate = 80\<rparr>),
         (''C'', \<lparr>total_schedules = Finite 3, overdue_maintenances = Finite 0,
                   upcoming_maintenances = Finite 1, compliance_rate = 100\<rparr>)]
     = maintenanceStats
        [(''C'', \<lparr>total_schedules = Finite 3, overdue_maintenances = Finite 0,
                   upcoming_maintenances = Finite 1, compliance_rate = 100\<rparr>),
         (''A'', \<lparr>total_schedules = Finite 5, overdue_maintenances = Finite 1,
                   upcoming_maintenances = Finite 2, compliance_rate = 80\<rparr>)]"
    by (rule conjunct1)
  from p s q e show ?thesis
    by blast
qed

text \<open>
  C8 as stated fails beyond \<open>2^53\<close>, where the addition of doubles rounds: the counts
  \<open>2^53\<close>, 1, 1 add up to \<open>2^53\<close> in this order and to \<open>2^53 + 2\<close> when the two small
  counts come first.
\<close>

theorem maintenanceStats_rounding_depends_on_order:
  "mset [(''A'', summary_with 9007199254740992), (''B'', summary_with 1), (''C'', summary_with 1)]
     = mset [(''B'', summary_with 1), (''C'', summary_with 1), (''A'', summary_with 9007199254740992)]
   \<and> totalSchedules (maintenanceStats
        [(''A'', summary_with 9007199254740992), (''B'', summary_with 1), (''C'', summary_with 1)])
       = Finite 9007199254740992
   \<and> totalSchedules (maintenanceStats
        [(''B'', summary_with 1), (''C'', summary_with 1), (''A'', summary_with 9007199254740992)])
       = Finite 9007199254740994"
proof -
  have "mset [(''A'', summary_with 9007199254740992), (''B'', summary_with 1), (''C'', summary_with 1)]
     = mset [(''B'', summary_with 1), (''C'', summary_with 1), (''A'', summary_with 9007199254740992)]"
    by (simp add: add_mset_commute)
  moreover have "totalSchedules (maintenanceStats
        [(''A'', summary_with 9007199254740992), (''B'', summary_with 1), (''C'', summary_with 1)])
       = Finite 9007199254740992"
    by (simp add: stats_eval number_eval)
  moreover have "totalSchedules (maintenanceStats
        [(''B'', summary_with 1), (''C'', summary_with 1), (''A'', summary_with 9007199254740992)])
       = Finite 9007199254740994"
    by (simp add: stats_eval number_eval)
  ultimately show ?thesis by blast
qed

text \<open>
  C7. The data handed to the table is the first five assets of the list, in order, so at
  most five rows and exactly five for a list of a hundred. The company column shows the
  company name when the asset has one and \<^verbatim>\<open>Unassigned\<close> when it has none (or an empty
  one); the location column shows the location when there is one and
  \<^verbatim>\<open>Not specified\<close> when it is absent (or empty).
\<close>

theorem recent_assets_table:
  "length (table_data as) = min 5 (length as)
   \<and> (\<forall>i < length (table_data as). table_data as ! i = as ! i)
   \<and> (length as = 100 \<longrightarrow> length (table_data as) = 5)
   \<and> (company a = Some c \<and> company_name c = Some n \<and> n \<noteq> [] \<longrightarrow> render_company a = n)
   \<and> (company a = None
        \<or> (\<exists>c. company a = Some c \<and> (company_name c = None \<or> company_name c = Some []))
       \<longrightarrow> render_company a = ''Unassigned'')
   \<and> (location a = Some l \<and> l \<noteq> [] \<longrightarrow> render_location (location a) = l)
   \<and> (location a = None \<or> location a = Some []
       \<longrightarrow> render_location (location a) = ''Not specified'')"
  by (auto simp: table_data_def render_company_def render_location_def or_else_def)

theorem recent_assets_table_witness:
  "length (replicate 100 (asset_of ''a'' None ''active'')) = 100
   \<and> length (table_data (replicate 100 (asset_of ''a'' None ''active''))) = 5
   \<and> table_data (replicate 100 (asset_of ''a'' None ''active'')) ! 4
       = replicate 100 (asset_of ''a'' None ''active'') ! 4
   \<and> company (asset_of ''a'' None ''active'') = None
   \<and> render_company (asset_of ''a'' None ''active'') = ''Unassigned''
   \<and> location (asset_of ''a'' None ''active'') = None
   \<and> render_location (location (asset_of ''a'' None ''active'')) = ''Not specified''
   \<and> company ((asset_of ''b'' None ''active'')
        \<lparr>company := Some \<lparr>company_name = Some ''Acme''\<rparr>, location := Some ''HQ''\<rparr>)
       = Some \<lparr>company_name = Some ''Acme''\<rparr>
   \<and> render_company ((asset_of ''b'' None ''active'')
        \<lparr>company := Some \<lparr>company_name = Some ''Acme''\<rparr>, location := Some ''HQ''\<rparr>) = ''Acme''
   \<and> render_location (location ((asset_of ''b'' None ''active'')
        \<lparr>company := Some \<lparr>company_name = Some ''Acme''\<rparr>, location := Some ''HQ''\<rparr>)) = ''HQ''"
proof -
  note t1 = recent_assets_table
    [of "replicate 100 (asset_of ''a'' None ''active'')" "asset_of ''a'' None ''active''"]
  note t2 = recent_assets_table
    [of "[]" "(asset_of ''b'' None ''active'')
        \<lparr>company := Some \<lparr>company_name = Some ''Acme''\<rparr>, location := Some ''HQ''\<rparr>"
        "\<lparr>company_name = Some ''Acme''\<rparr>" "''Acme''" "''HQ''"]
  have l: "length (table_data (replicate 100 (asset_of ''a'' None ''active''))) = 5"
    using t1 by simp
  have n: "table_data (replicate 100 (asset_of ''a'' None ''active'')) ! 4
       = replicate 100 (asset_of ''a'' None ''active'') ! 4"
    using t1 l by simp
  have u: "render_company (asset_of ''a'' None ''active'') = ''Unassigned''
    \<and> render_location (location (asset_of ''a'' None ''active'')) = ''Not specified''"
    using t1 by (simp add: asset_of_def)
  have p: "render_company ((asset_of ''b'' None ''active'')
        \<lparr>company := Some \<lparr>company_name = Some ''Acme''\<rparr>, location := Some ''HQ''\<rparr>) = ''Acme''
    \<and> render_location (location ((asset_of ''b'' None ''active'')
        \<lparr>company := Some \<lparr>company_name = Some ''Acme''\<rparr>, location := Some ''HQ''\<rparr>)) = ''HQ''"
    using t2 by (simp add: asset_of_def)
  from l n u p show ?thesis
    by (simp add: asset_of_def)
qed

text \<open>
  C10. A render either throws on every heap or on none. When it returns, it has changed
  no cell that existed before, and the objects it has built hold exactly the groups and
  the counts that the two reductions compute from the asset list. A second render on the
  heap the first one left builds two new objects with the same contents and leaves the
  objects of the first render as they were; and the contents are the same from whatever
  heap the render starts.
\<close>

theorem Aggregator_deterministic:
  "((Aggregator h as = None) = (Aggregator h' as = None))
   \<and> (Aggregator h as = Some (g1, s1, h1) \<longrightarrow>
        take (length h) h1 = h
        \<and> assetsByCompany as = Some (groups_at h1 g1)
        \<and> assetsByStatus as = counts_at h1 s1
        \<and> (\<exists>g2 s2 h2. Aggregator h1 as = Some (g2, s2, h2)
              \<and> groups_at h2 g2 = groups_at h1 g1 \<and> counts_at h2 s2 = counts_at h1 s1
              \<and> groups_at h2 g1 = groups_at h1 g1 \<and> counts_at h2 s1 = counts_at h1 s1
              \<and> g2 \<noteq> g1 \<and> s2 \<noteq> s1 \<and> take (length h1) h2 = h1))
   \<and> (Aggregator h as = Some (g1, s1, h1) \<and> Aggregator h' as = Some (g1', s1', h1') \<longrightarrow>
        groups_at h1' g1' = groups_at h1 g1 \<and> counts_at h1' s1' = counts_at h1 s1)"
proof (intro conjI impI)
  show "(Aggregator h as = None) = (Aggregator h' as = None)"
    by (simp add: Aggregator_sim split: option.splits)
next
  assume a: "Aggregator h as = Some (g1, s1, h1)"
  then obtain g where g: "assetsByCompany as = Some g"
    and g1: "g1 = length h" and s1: "s1 = length (heap_of h g)"
    and h1: "h1 = heap_of h g @ [CountsCell (assetsByStatus as)]"
    by (auto simp: Aggregator_sim length_heap_of split: option.splits)
  let ?c = "assetsByStatus as"
  let ?h2 = "heap_of h1 g @ [CountsCell ?c]"
  obtain ext where ext: "heap_of h1 g = h1 @ ext"
    using heap_of_extends by blast
  have r1: "groups_at h1 g1 = g"
    unfolding h1 g1 by (rule groups_at_heap_of)
  have c1: "counts_at h1 s1 = ?c"
    unfolding h1 s1 using counts_at_end [of "heap_of h g" ?c "[]"] by simp
  show "take (length h) h1 = h"
    unfolding h1 by (simp add: heap_of_def)
  show "assetsByCompany as = Some (groups_at h1 g1)"
    using g r1 by simp
  show "assetsByStatus as = counts_at h1 s1"
    using c1 by simp
  have two: "Aggregator h1 as = Some (length h1, length (heap_of h1 g), ?h2)"
    using g by (simp add: Aggregator_sim length_heap_of)
  have r2: "groups_at ?h2 (length h1) = g"
    by (rule groups_at_heap_of)
  have c2: "counts_at ?h2 (length (heap_of h1 g)) = ?c"
    using counts_at_end [of "heap_of h1 g" ?c "[]"] by simp
  have e2: "?h2 = h1 @ (ext @ [CountsCell ?c])"
    by (simp add: ext)
  have "?h2 = heap_of h g @ ([CountsCell ?c] @ ext @ [CountsCell ?c])"
    by (subst e2, subst h1) simp
  then have r3: "groups_at ?h2 g1 = g"
    unfolding g1 by (simp only: groups_at_heap_of)
  have "?h2 = (heap_of h g @ [CountsCell ?c]) @ (ext @ [CountsCell ?c])"
    by (subst e2, subst h1) simp
  then have c3: "counts_at ?h2 s1 = ?c"
    unfolding s1 by (simp only: counts_at_end)
  have n1: "length h1 \<noteq> g1"
    unfolding h1 g1 by (simp add: length_heap_of)
  have n2: "length (heap_of h1 g) \<noteq> s1"
    unfolding s1 h1 by (simp add: length_heap_of)
  have t: "take (length h1) ?h2 = h1"
    by (subst e2) simp
  from two r1 c1 r2 c2 r3 c3 n1 n2 t
  show "\<exists>g2 s2 h2. Aggregator h1 as = Some (g2, s2, h2)
              \<and> groups_at h2 g2 = groups_at h1 g1 \<and> counts_at h2 s2 = counts_at h1 s1
              \<and> groups_at h2 g1 = groups_at h1 g1 \<and> counts_at h2 s1 = counts_at h1 s1
              \<and> g2 \<noteq> g1 \<and> s2 \<noteq> s1 \<and> take (length h1) h2 = h1"
    by simp
next
  assume "Aggregator h as = Some (g1, s1, h1) \<and> Aggregator h' as = Some (g1', s1', h1')"
  then obtain g where "assetsByCompany as = Some g"
    and a: "g1 = length h" "s1 = length (heap_of h g)"
      "h1 = heap_of h g @ [CountsCell (assetsByStatus as)]"
    and b: "g1' = length h'" "s1' = length (heap_of h' g)"
      "h1' = heap_of h' g @ [CountsCell (assetsByStatus as)]"
    by (auto simp: Aggregator_sim length_heap_of split: option.splits)
  have "groups_at h1 g1 = g" "groups_at h1' g1' = g"
    unfolding a b by (rule groups_at_heap_of)+
  moreover have "counts_at h1 s1 = assetsByStatus as"
    unfolding a using counts_at_end [of "heap_of h g" "assetsByStatus as" "[]"] by simp
  moreover have "counts_at h1' s1' = assetsByStatus as"
    unfolding b using counts_at_end [of "heap_of h' g" "assetsByStatus as" "[]"] by simp
  ultimately show "groups_at h1' g1' = groups_at h1 g1" "counts_at h1' s1' = counts_at h1 s1"
    by simp_all
qed

theorem Aggregator_deterministic_witness:
  "Aggregator [] [asset_of ''a1'' (Some ''A'') ''active'', asset_of ''a2'' (Some ''A'') ''active'']
     = Some (0, 2,
         [GroupsCell [(''A'', 1)],
          ArrayCell [asset_of ''a1'' (Some ''A'') ''active'', asset_of ''a2'' (Some ''A'') ''active''],
          CountsCell [(''active'', Num 2)]])
   \<and> Aggregator
        [GroupsCell [(''A'', 1)],
         ArrayCell [asset_of ''a1'' (Some ''A'') ''active'', asset_of ''a2'' (Some ''A'') ''active''],
         CountsCell [(''active'', Num 2)]]
        [asset_of ''a1'' (Some ''A'') ''active'', asset_of ''a2'' (Some ''A'') ''active'']
     = Some (3, 5,
         [GroupsCell [(''A'', 1)],
          ArrayCell [asset_of ''a1'' (Some ''A'') ''active'', asset_of ''a2'' (Some ''A'') ''active''],
          CountsCell [(''active'', Num 2)],
          GroupsCell [(''A'', 4)],
          ArrayCell [asset_of ''a1'' (Some ''A'') ''active'', asset_of ''a2'' (Some ''A'') ''active''],
          CountsCell [(''active'', Num 2)]])
   \<and> assetsByCompany
        [asset_of ''a1'' (Some ''A'') ''active'', asset_of ''a2'' (Some ''A'') ''active'']
     = Some (groups_at
         [GroupsCell [(''A'', 1)],
          ArrayCell [asset_of ''a1'' (Some ''A'') ''active'', asset_of ''a2'' (Some ''A'') ''active''],
          CountsCell [(''active'', Num 2)]] 0)
   \<and> assetsByStatus
        [asset_of ''a1'' (Some ''A'') ''active'', asset_of ''a2'' (Some ''A'') ''active'']
     = counts_at
         [GroupsCell [(''A'', 1)],
          ArrayCell [asset_of ''a1'' (Some ''A'') ''active'', asset_of ''a2'' (Some ''A'') ''active''],
          CountsCell [(''active'', Num 2)]] 2"
proof -
  let ?as = "[asset_of ''a1'' (Some ''A'') ''active'', asset_of ''a2'' (Some ''A'') ''active'']"
  let ?h1 = "[GroupsCell [(''A'', 1)], ArrayCell ?as, CountsCell [(''active'', Num 2)]]"
  have one: "Aggregator [] ?as = Some (0, 2, ?h1)"
    by (simp add: heap_eval)
  have two: "Aggregator ?h1 ?as
     = Some (3, 5, ?h1 @ [GroupsCell [(''A'', 4)], ArrayCell ?as, CountsCell [(''active'', Num 2)]])"
    by (simp add: heap_eval)
  note t = Aggregator_deterministic [of "[]" ?as "[]" 0 2 ?h1]
  from t one have "assetsByCompany ?as = Some (groups_at ?h1 0)"
    "assetsByStatus ?as = counts_at ?h1 2"
    by blast+
  with one two show ?thesis
    by simp
qed

text \<open>
  C6. Whatever the collaborator answers, the loader's first effect sets the loading flag to
  true, before any fetch is issued; nothing sets the flag again until the loader's last
  effect, which sets it to false, after the last fetch attempt and after the commit or the
  log. So the flag is true while the pass runs and false once it has finished, however
  the fetches went, and the loader completes without throwing.
\<close>

theorem loading_flag_lifecycle:
  "\<exists>mid. fst (loadMaintenanceSummaries fetch groups) = SetLoading True # mid @ [SetLoading False]
     \<and> (\<forall>ev \<in> set mid. \<not> is_SetLoading ev)
     \<and> (\<forall>i. 0 < i \<and> i \<le> length mid \<longrightarrow>
           loading (run st (take i (fst (loadMaintenanceSummaries fetch groups)))) = True)
     \<and> loading (run st (fst (loadMaintenanceSummaries fetch groups))) = False
     \<and> snd (loadMaintenanceSummaries fetch groups) = Inr ()"
proof -
  obtain evs x where
    shape: "fst (loadMaintenanceSummaries fetch groups) = SetLoading True # (evs @ [x]) @ [SetLoading False]"
    and evs: "evs = fst (fetch_loop fetch (object_keys groups) [])"
    and x: "x = (case snd (fetch_loop fetch (object_keys groups) []) of
              Inr m \<Rightarrow> SetMaintenanceSummaries m | Inl e \<Rightarrow> ConsoleError e)"
    and fin: "snd (loadMaintenanceSummaries fetch groups) = Inr ()"
    using load_shape by blast
  let ?mid = "evs @ [x]"
  have "\<not> is_SetLoading x"
    unfolding x by (simp split: sum.splits)
  then have mid: "\<forall>ev \<in> set ?mid. \<not> is_SetLoading ev"
    using fetch_loop_effects evs by auto
  have during: "loading (run st (take i (fst (loadMaintenanceSummaries fetch groups)))) = True"
    if "0 < i \<and> i \<le> length ?mid" for i
  proof -
    from that obtain j where j: "i = Suc j" "j < length ?mid"
      by (cases i) auto
    have "take i (fst (loadMaintenanceSummaries fetch groups)) = SetLoading True # take j ?mid"
      unfolding shape j using j(2) by simp
    moreover have "\<forall>ev \<in> set (take j ?mid). \<not> is_SetLoading ev"
      using mid by (meson in_set_takeD)
    ultimately show ?thesis
      by (simp add: run_Cons loading_run)
  qed
  have "run st (fst (loadMaintenanceSummaries fetch groups))
          = apply_effect (run (apply_effect st (SetLoading True)) ?mid) (SetLoading False)"
    unfolding shape by (simp add: run_def)
  then have final: "loading (run st (fst (loadMaintenanceSummaries fetch groups))) = False"
    by simp
  from shape mid during final fin show ?thesis
    by blast
qed

theorem loading_flag_lifecycle_witness:
  "loadMaintenanceSummaries fetch_B_rejects groups_ABC
     = ([SetLoading True, GetClientMaintenanceSummary ''A'', GetClientMaintenanceSummary ''B'',
         ConsoleError ''rejected'', SetLoading False], Inr ())
   \<and> loading (run (initial_state assets_ABC)
        (take 3 (fst (loadMaintenanceSummaries fetch_B_rejects groups_ABC)))) = True
   \<and> loading (run (initial_state assets_ABC)
        (fst (loadMaintenanceSummaries fetch_B_rejects groups_ABC))) = False"
proof -
  have e: "loadMaintenanceSummaries fetch_B_rejects groups_ABC
     = ([SetLoading True, GetClientMaintenanceSummary ''A'', GetClientMaintenanceSummary ''B'',
         ConsoleError ''rejected'', SetLoading False], Inr ())"
    by (simp add: loadMaintenanceSummaries_eq eval_defs)
  from loading_flag_lifecycle [of fetch_B_rejects groups_ABC "initial_state assets_ABC"]
  obtain mid where
    m: "fst (loadMaintenanceSummaries fetch_B_rejects groups_ABC)
          = SetLoading True # mid @ [SetLoading False]"
    and d: "\<forall>i. 0 < i \<and> i \<le> length mid \<longrightarrow>
           loading (run (initial_state assets_ABC)
             (take i (fst (loadMaintenanceSummaries fetch_B_rejects groups_ABC)))) = True"
    and f: "loading (run (initial_state assets_ABC)
             (fst (loadMaintenanceSummaries fetch_B_rejects groups_ABC))) = False"
    by blast
  from m e have "length mid = 3" by auto
  with d have "loading (run (initial_state assets_ABC)
      (take 3 (fst (loadMaintenanceSummaries fetch_B_rejects groups_ABC)))) = True"
    by simp
  with e f show ?thesis by blast
qed

text \<open>
  C3. If the fetch of any company rejects, the loader never calls
  \<^verbatim>\<open>setMaintenanceSummaries\<close>: the committed mapping keeps its prior value, which is the
  empty mapping at mount, so the summaries already fetched for earlier companies are
  dropped, and the loading flag still ends false. The loader calls
  \<^verbatim>\<open>setMaintenanceSummaries\<close> once when every fetch resolves and not at all otherwise.
\<close>

theorem all_or_nothing_commit:
  "((\<exists>k \<in> set (object_keys groups). \<not> is_resolved (fetch k)) \<longrightarrow>
       filter is_SetMaintenanceSummaries (fst (loadMaintenanceSummaries fetch groups)) = []
     \<and> maintenanceSummaries (run st (fst (loadMaintenanceSummaries fetch groups)))
         = maintenanceSummaries st
     \<and> maintenanceSummaries
         (run (initial_state initialAssets) (fst (loadMaintenanceSummaries fetch groups))) = []
     \<and> loading (run st (fst (loadMaintenanceSummaries fetch groups))) = False)
   \<and> length (filter is_SetMaintenanceSummaries (fst (loadMaintenanceSummaries fetch groups)))
       = (if \<forall>k \<in> set (object_keys groups). is_resolved (fetch k) then 1 else 0)"
proof (cases "\<forall>k \<in> set (object_keys groups). is_resolved (fetch k)")
  case True
  from load_resolved [OF True] obtain m where
    "loadMaintenanceSummaries fetch groups =
       (SetLoading True # map GetClientMaintenanceSummary (object_keys groups)
          @ [SetMaintenanceSummaries m, SetLoading False], Inr ())"
    by blast
  then show ?thesis
    using True by (simp add: filter_commits_fetches)
next
  case False
  then have "\<exists>k \<in> set (object_keys groups). \<not> is_resolved (fetch k)"
    by blast
  from load_rejected [OF this] obtain pre k e where
    l: "loadMaintenanceSummaries fetch groups =
               (SetLoading True # map GetClientMaintenanceSummary (pre @ [k])
                  @ [ConsoleError e, SetLoading False], Inr ())"
    by blast
  have "filter is_SetMaintenanceSummaries (fst (loadMaintenanceSummaries fetch groups)) = []"
    unfolding l by (simp add: filter_commits_fetches)
  moreover have "run st' (fst (loadMaintenanceSummaries fetch groups)) = st'\<lparr>loading := False\<rparr>"
    for st'
    unfolding l fst_conv by (rule run_rejected)
  ultimately show ?thesis
    using False by (simp add: initial_state_def)
qed

theorem all_or_nothing_commit_witness:
  "(\<exists>k \<in> set (object_keys groups_ABC). \<not> is_resolved (fetch_B_rejects k))
   \<and> filter is_SetMaintenanceSummaries (fst (loadMaintenanceSummaries fetch_B_rejects groups_ABC)) = []
   \<and> maintenanceSummaries
       (run (initial_state assets_ABC) (fst (loadMaintenanceSummaries fetch_B_rejects groups_ABC))) = []
   \<and> loading
       (run (initial_state assets_ABC) (fst (loadMaintenanceSummaries fetch_B_rejects groups_ABC))) = False
   \<and> object_keys groups_AC = [''A'', ''C'']
   \<and> is_resolved (fetch_B_rejects ''A'') \<and> is_resolved (fetch_B_rejects ''C'')
   \<and> length (filter is_SetMaintenanceSummaries
        (fst (loadMaintenanceSummaries fetch_B_rejects groups_AC))) = 1"
proof -
  have a: "\<exists>k \<in> set (object_keys groups_ABC). \<not> is_resolved (fetch_B_rejects k)"
    by (simp add: eval_defs)
  have b: "\<forall>k \<in> set (object_keys groups_AC). is_resolved (fetch_B_rejects k)"
    by (simp add: eval_defs)
  have k: "object_keys groups_AC = [''A'', ''C'']"
    by (simp add: eval_defs)
  have r: "is_resolved (fetch_B_rejects ''A'') \<and> is_resolved (fetch_B_rejects ''C'')"
    by (simp add: eval_defs)
  from a b k r
    all_or_nothing_commit [of groups_ABC fetch_B_rejects "initial_state assets_ABC" assets_ABC]
    all_or_nothing_commit [of groups_AC fetch_B_rejects "initial_state assets_AC" assets_AC]
  show ?thesis by auto
qed

text \<open>
  C1, as the code has it. When the fetch of a company rejects, the loop is left at that
  company: the companies before it were fetched, the companies after it are never
  fetched, the rejection is logged and the loader completes without throwing. The
  committed mapping is not touched, so at mount it stays empty, no company has an entry
  and the totals are all zero. For the companies A, B, C with B rejecting: A and B are
  fetched, C is not, the final mapping is empty and the totals are 0, 0, 0.
\<close>

theorem first_rejection_aborts:
  "object_keys groups = pre @ k # post \<Longrightarrow>
   \<forall>k' \<in> set pre. is_resolved (fetch k') \<Longrightarrow> fetch k = Rejected e \<Longrightarrow>
     loadMaintenanceSummaries fetch groups =
       (SetLoading True # map GetClientMaintenanceSummary (pre @ [k])
          @ [ConsoleError e, SetLoading False], Inr ())
   \<and> (\<forall>k' \<in> set post. k' \<notin> set (pre @ [k]) \<longrightarrow>
         GetClientMaintenanceSummary k' \<notin> set (fst (loadMaintenanceSummaries fetch groups)))
   \<and> run (initial_state initialAssets) (fst (loadMaintenanceSummaries fetch groups))
       = initial_state initialAssets
   \<and> maintenanceSummaries
         (run (initial_state initialAssets) (fst (loadMaintenanceSummaries fetch groups))) = []
   \<and> maintenanceStats (maintenanceSummaries
         (run (initial_state initialAssets) (fst (loadMaintenanceSummaries fetch groups))))
       = \<lparr>totalSchedules = Finite 0, overdueMaintenances = Finite 0, upcomingMaintenances = Finite 0\<rparr>"
proof -
  assume keys: "object_keys groups = pre @ k # post"
    and pre: "\<forall>k' \<in> set pre. is_resolved (fetch k')"
    and k: "fetch k = Rejected e"
  have "fetch_loop fetch (object_keys groups) []
          = (map GetClientMaintenanceSummary (pre @ [k]), Inl e)"
    unfolding keys using pre k by (rule fetch_loop_first_rejected)
  then have l: "loadMaintenanceSummaries fetch groups =
       (SetLoading True # map GetClientMaintenanceSummary (pre @ [k])
          @ [ConsoleError e, SetLoading False], Inr ())"
    by (rule load_effects_Inl)
  have r: "run (initial_state initialAssets) (fst (loadMaintenanceSummaries fetch groups))
          = initial_state initialAssets"
    unfolding l fst_conv run_rejected by (simp add: initial_state_def)
  have n: "\<forall>k' \<in> set post. k' \<notin> set (pre @ [k]) \<longrightarrow>
         GetClientMaintenanceSummary k' \<notin> set (fst (loadMaintenanceSummaries fetch groups))"
    unfolding l by auto
  have z: "maintenanceStats (maintenanceSummaries (initial_state initialAssets))
       = \<lparr>totalSchedules = Finite 0, overdueMaintenances = Finite 0, upcomingMaintenances = Finite 0\<rparr>"
    by (simp add: initial_state_def maintenanceStats_def object_values_def object_entries_def)
  from l n r z show ?thesis
    by (simp add: initial_state_def)
qed

theorem first_rejection_aborts_witness:
  "assetsByCompany assets_ABC = Some groups_ABC
   \<and> object_keys groups_ABC = [''A''] @ ''B'' # [''C'']
   \<and> is_resolved (fetch_B_rejects ''A'')
   \<and> fetch_B_rejects ''B'' = Rejected ''rejected''
   \<and> loadMaintenanceSummaries fetch_B_rejects groups_ABC =
       ([SetLoading True, GetClientMaintenanceSummary ''A'', GetClientMaintenanceSummary ''B'',
         ConsoleError ''rejected'', SetLoading False], Inr ())
   \<and> GetClientMaintenanceSummary ''C''
        \<notin> set (fst (loadMaintenanceSummaries fetch_B_rejects groups_ABC))
   \<and> maintenanceSummaries
        (run (initial_state assets_ABC) (fst (loadMaintenanceSummaries fetch_B_rejects groups_ABC))) = []
   \<and> maintenanceStats (maintenanceSummaries
        (run (initial_state assets_ABC) (fst (loadMaintenanceSummaries fetch_B_rejects groups_ABC))))
       = \<lparr>totalSchedules = Finite 0, overdueMaintenances = Finite 0, upcomingMaintenances = Finite 0\<rparr>"
proof -
  have g: "assetsByCompany assets_ABC = Some groups_ABC"
    by (simp add: eval_defs)
  have a: "object_keys groups_ABC = [''A''] @ ''B'' # [''C'']"
    by (simp add: eval_defs)
  have b: "\<forall>k' \<in> set [''A'']. is_resolved (fetch_B_rejects k')"
    by (simp add: eval_defs)
  have c: "fetch_B_rejects ''B'' = Rejected ''rejected''"
    by (simp add: eval_defs)
  note t = first_rejection_aborts [OF a b c, of assets_ABC]
  from t have n: "GetClientMaintenanceSummary ''C''
        \<notin> set (fst (loadMaintenanceSummaries fetch_B_rejects groups_ABC))"
    by simp
  from t have l: "loadMaintenanceSummaries fetch_B_rejects groups_ABC =
       ([SetLoading True, GetClientMaintenanceSummary ''A'', GetClientMaintenanceSummary ''B'',
         ConsoleError ''rejected'', SetLoading False], Inr ())"
    by simp
  from b have b': "is_resolved (fetch_B_rejects ''A'')"
    by simp
  from g a b' c l n t show ?thesis
    by blast
qed

text \<open>
  C1 as stated fails on its own example: with A and C resolving and B rejecting, the
  final mapping does not hold A and C and the totals are not 8, 1, 3.
\<close>

theorem rejection_discards_fetched_summaries:
  "fetch_B_rejects ''A'' =
     Resolved \<lparr>total_schedules = Finite 5, overdue_maintenances = Finite 1,
               upcoming_maintenances = Finite 2, compliance_rate = 100\<rparr>
   \<and> fetch_B_rejects ''B'' = Rejected ''rejected''
   \<and> fetch_B_rejects ''C'' =
     Resolved \<lparr>total_schedules = Finite 3, overdue_maintenances = Finite 0,
               upcoming_maintenances = Finite 1, compliance_rate = 100\<rparr>
   \<and> object_keys groups_ABC = [''A'', ''B'', ''C'']
   \<and> fst (loadMaintenanceSummaries fetch_B_rejects groups_ABC) =
       [SetLoading True, GetClientMaintenanceSummary ''A'', GetClientMaintenanceSummary ''B'',
        ConsoleError ''rejected'', SetLoading False]
   \<and> object_keys (maintenanceSummaries
        (run (initial_state assets_ABC) (fst (loadMaintenanceSummaries fetch_B_rejects groups_ABC))))
       \<noteq> [''A'', ''C'']
   \<and> maintenanceStats (maintenanceSummaries
        (run (initial_state assets_ABC) (fst (loadMaintenanceSummaries fetch_B_rejects groups_ABC))))
       \<noteq> \<lparr>totalSchedules = Finite 8, overdueMaintenances = Finite 1, upcomingMaintenances = Finite 3\<rparr>"
  by (simp add: loadMaintenanceSummaries_eq run_def maintenanceStats_def eval_defs)

text \<open>
  C2, as the code has it. The loop fills a local object, and the committed mapping, which
  is what the presentation layer sees, is written once, after the last fetch. So at every
  point of the pass the visible mapping is either still empty or, once every fetch has
  resolved and the commit has happened, the whole mapping; an entry is visible only for
  a company whose fetch resolved with that summary, and only after every company has
  been fetched; entries are never removed; and the committed mapping lists the companies
  in the iteration order of the company identifiers.
\<close>

theorem single_commit_visibility:
  "maintenanceSummaries
     (run (initial_state initialAssets) (take i (fst (loadMaintenanceSummaries fetch groups))))
     = (case snd (fetch_loop fetch (object_keys groups) []) of
          Inl e \<Rightarrow> []
        | Inr m \<Rightarrow> if length (object_keys groups) + 2 \<le> i then m else [])
   \<and> (i \<le> j \<longrightarrow>
        set (maintenanceSummaries
          (run (initial_state initialAssets) (take i (fst (loadMaintenanceSummaries fetch groups)))))
        \<subseteq> set (maintenanceSummaries
          (run (initial_state initialAssets) (take j (fst (loadMaintenanceSummaries fetch groups))))))
   \<and> (obj_get (maintenanceSummaries
          (run (initial_state initialAssets) (take i (fst (loadMaintenanceSummaries fetch groups))))) k
         = Some s \<longrightarrow>
        fetch k = Resolved s
        \<and> (\<forall>k' \<in> set (object_keys groups). is_resolved (fetch k')
              \<and> GetClientMaintenanceSummary k'
                  \<in> set (take i (fst (loadMaintenanceSummaries fetch groups)))))
   \<and> (assetsByCompany initialAssets = Some groups \<longrightarrow>
        (\<forall>m. snd (fetch_loop fetch (object_keys groups) []) = Inr m \<longrightarrow>
           map fst m = object_keys groups))"
proof -
  let ?visible = "\<lambda>i. maintenanceSummaries
     (run (initial_state initialAssets) (take i (fst (loadMaintenanceSummaries fetch groups))))"
  have v: "?visible i = (case snd (fetch_loop fetch (object_keys groups) []) of
          Inl e \<Rightarrow> []
        | Inr m \<Rightarrow> if length (object_keys groups) + 2 \<le> i then m else [])" for i
    by (rule visible_during_pass)
  have mono: "i \<le> j \<longrightarrow> set (?visible i) \<subseteq> set (?visible j)"
    unfolding v by (auto split: sum.splits)
  have entry: "obj_get (?visible i) k = Some s \<longrightarrow>
        fetch k = Resolved s
        \<and> (\<forall>k' \<in> set (object_keys groups). is_resolved (fetch k')
              \<and> GetClientMaintenanceSummary k'
                  \<in> set (take i (fst (loadMaintenanceSummaries fetch groups))))"
  proof
    assume a: "obj_get (?visible i) k = Some s"
    obtain evs r where r: "fetch_loop fetch (object_keys groups) [] = (evs, r)"
      by (cases "fetch_loop fetch (object_keys groups) []")
    from a r obtain m where m: "r = Inr m" and i: "length (object_keys groups) + 2 \<le> i"
      and g: "obj_get m k = Some s"
      unfolding v by (cases r) (auto split: if_splits)
    from r m have l: "fetch_loop fetch (object_keys groups) [] = (evs, Inr m)"
      by simp
    from fetch_loop_Inr [OF l, of k] g have "fetch k = Resolved s"
      by (auto split: if_splits outcome.splits)
    moreover from fetch_loop_Inr [OF l, of k]
    have "\<forall>k' \<in> set (object_keys groups). is_resolved (fetch k')"
      by blast
    moreover from take_after_fetches [OF l i]
    have "\<forall>k' \<in> set (object_keys groups). GetClientMaintenanceSummary k'
                  \<in> set (take i (fst (loadMaintenanceSummaries fetch groups)))"
      by auto
    ultimately show "fetch k = Resolved s
        \<and> (\<forall>k' \<in> set (object_keys groups). is_resolved (fetch k')
              \<and> GetClientMaintenanceSummary k'
                  \<in> set (take i (fst (loadMaintenanceSummaries fetch groups))))"
      by blast
  qed
  have order: "assetsByCompany initialAssets = Some groups \<longrightarrow>
        (\<forall>m. snd (fetch_loop fetch (object_keys groups) []) = Inr m \<longrightarrow>
           map fst m = object_keys groups)"
  proof (intro impI allI)
    fix m
    assume g: "assetsByCompany initialAssets = Some groups"
      and "snd (fetch_loop fetch (object_keys groups) []) = Inr m"
    then have l: "fetch_loop fetch (object_keys groups) []
                    = (fst (fetch_loop fetch (object_keys groups) []), Inr m)"
      by (metis prod.collapse)
    from fetch_loop_keys [OF l distinct_group_keys [OF g]]
    show "map fst m = object_keys groups"
      by simp
  qed
  from v [of i] mono entry order show ?thesis
    by blast
qed

theorem single_commit_visibility_witness:
  "assetsByCompany assets_AC = Some groups_AC
   \<and> object_keys groups_AC = [''A'', ''C'']
   \<and> maintenanceSummaries (run (initial_state assets_AC)
        (take 3 (fst (loadMaintenanceSummaries fetch_B_rejects groups_AC)))) = []
   \<and> map fst (maintenanceSummaries (run (initial_state assets_AC)
        (take 4 (fst (loadMaintenanceSummaries fetch_B_rejects groups_AC))))) = [''A'', ''C'']
   \<and> set (maintenanceSummaries (run (initial_state assets_AC)
        (take 4 (fst (loadMaintenanceSummaries fetch_B_rejects groups_AC)))))
      \<subseteq> set (maintenanceSummaries (run (initial_state assets_AC)
        (take 5 (fst (loadMaintenanceSummaries fetch_B_rejects groups_AC)))))
   \<and> obj_get (maintenanceSummaries (run (initial_state assets_AC)
        (take 4 (fst (loadMaintenanceSummaries fetch_B_rejects groups_AC))))) ''C''
      = Some \<lparr>total_schedules = Finite 3, overdue_maintenances = Finite 0,
               upcoming_maintenances = Finite 1, compliance_rate = 100\<rparr>
   \<and> GetClientMaintenanceSummary ''A''
        \<in> set (take 4 (fst (loadMaintenanceSummaries fetch_B_rejects groups_AC)))"
proof -
  have g: "assetsByCompany assets_AC = Some groups_AC"
    by (simp add: eval_defs)
  have k: "object_keys groups_AC = [''A'', ''C'']"
    by (simp add: eval_defs)
  have f: "fetch_loop fetch_B_rejects [''A'', ''C''] [] =
    ([GetClientMaintenanceSummary ''A'', GetClientMaintenanceSummary ''C''],
     Inr [(''A'', \<lparr>total_schedules = Finite 5, overdue_maintenances = Finite 1,
               upcoming_maintenances = Finite 2, compliance_rate = 100\<rparr>),
          (''C'', \<lparr>total_schedules = Finite 3, overdue_maintenances = Finite 0,
               upcoming_maintenances = Finite 1, compliance_rate = 100\<rparr>)])"
    by (simp add: fetch_B_rejects_def)
  note t3 = single_commit_visibility [of assets_AC 3 fetch_B_rejects groups_AC 3 "''A''"]
  note t4 = single_commit_visibility [of assets_AC 4 fetch_B_rejects groups_AC 5 "''C''"
      "\<lparr>total_schedules = Finite 3, overdue_maintenances = Finite 0,
               upcoming_maintenances = Finite 1, compliance_rate = 100\<rparr>"]
  from t3 have v3: "maintenanceSummaries (run (initial_state assets_AC)
        (take 3 (fst (loadMaintenanceSummaries fetch_B_rejects groups_AC)))) = []"
    unfolding k f by simp
  from t4 have v4: "maintenanceSummaries (run (initial_state assets_AC)
        (take 4 (fst (loadMaintenanceSummaries fetch_B_rejects groups_AC)))) =
         [(''A'', \<lparr>total_schedules = Finite 5, overdue_maintenances = Finite 1,
               upcoming_maintenances = Finite 2, compliance_rate = 100\<rparr>),
          (''C'', \<lparr>total_schedules = Finite 3, overdue_maintenances = Finite 0,
               upcoming_maintenances = Finite 1, compliance_rate = 100\<rparr>)]"
    unfolding k f by simp
  have o: "obj_get (maintenanceSummaries (run (initial_state assets_AC)
        (take 4 (fst (loadMaintenanceSummaries fetch_B_rejects groups_AC))))) ''C''
      = Some \<lparr>total_schedules = Finite 3, overdue_maintenances = Finite 0,
               upcoming_maintenances = Finite 1, compliance_rate = 100\<rparr>"
    unfolding v4 by simp
  from t4 o have a: "GetClientMaintenanceSummary ''A''
        \<in> set (take 4 (fst (loadMaintenanceSummaries fetch_B_rejects groups_AC)))"
    unfolding k by simp
  have le: "(4::nat) \<le> 5"
    by simp
  from t4 le have s: "set (maintenanceSummaries (run (initial_state assets_AC)
        (take 4 (fst (loadMaintenanceSummaries fetch_B_rejects groups_AC)))))
      \<subseteq> set (maintenanceSummaries (run (initial_state assets_AC)
        (take 5 (fst (loadMaintenanceSummaries fetch_B_rejects groups_AC)))))"
    by blast
  from v4 have m: "map fst (maintenanceSummaries (run (initial_state assets_AC)
        (take 4 (fst (loadMaintenanceSummaries fetch_B_rejects groups_AC))))) = [''A'', ''C'']"
    by simp
  from g k v3 m s o a show ?thesis
    by blast
qed

text \<open>
  C2 as stated fails for two companies that both resolve: while the loader waits for the
  second company, the first company's fetch has resolved and its entry is not visible.
\<close>

theorem no_entry_visible_during_pass:
  "fetch_B_rejects ''A'' =
     Resolved \<lparr>total_schedules = Finite 5, overdue_maintenances = Finite 1,
               upcoming_maintenances = Finite 2, compliance_rate = 100\<rparr>
   \<and> object_keys groups_AC = [''A'', ''C'']
   \<and> take 3 (fst (loadMaintenanceSummaries fetch_B_rejects groups_AC))
       = [SetLoading True, GetClientMaintenanceSummary ''A'', GetClientMaintenanceSummary ''C'']
   \<and> obj_get (maintenanceSummaries (run (initial_state assets_AC)
        (take 3 (fst (loadMaintenanceSummaries fetch_B_rejects groups_AC))))) ''A'' = None
   \<and> map fst (maintenanceSummaries (run (initial_state assets_AC)
        (take 3 (fst (loadMaintenanceSummaries fetch_B_rejects groups_AC))))) \<noteq> [''A'']"
  by (simp add: loadMaintenanceSummaries_eq run_def eval_defs)

end
